theory Spec2Isabelle
  imports Complex_Main
begin

section \<open>Texts, the character database and errors\<close>

text \<open>
  A Python \<^verbatim>\<open>str\<close> is a sequence of Unicode code points. The detector calls four
  operations of the runtime on it: \<^verbatim>\<open>str.lower\<close>, \<^verbatim>\<open>str.isalnum\<close> (on one character),
  the whitespace test behind \<^verbatim>\<open>str.split()\<close>, and the regular expression engine. The
  tables of the first three belong to the Unicode character database of the interpreter
  and not to the repository, so they are a parameter of the embedding: every function
  that reads text takes the database \<open>R\<close> first. \<^verbatim>\<open>str.upper\<close> is not called by the
  detector; it is carried along because case-insensitivity is stated with it.
\<close>

type_synonym codepoint = nat
type_synonym pystr = "codepoint list"

record unicode_db =
  str_lower :: "pystr \<Rightarrow> pystr"
  str_upper :: "pystr \<Rightarrow> pystr"
  isalnum :: "codepoint \<Rightarrow> bool"
  isspace :: "codepoint \<Rightarrow> bool"

text \<open>An ASCII literal as a text.\<close>

definition str :: "string \<Rightarrow> pystr" where
  "str cs = map of_char cs"

text \<open>
  The exceptions the detector's operations can raise: \<^verbatim>\<open>max()\<close> of an empty sequence
  and an index out of range.
\<close>

datatype error = ValueError | IndexError

definition py_index :: "'a list \<Rightarrow> nat \<Rightarrow> error + 'a" where
  "py_index xs i = (if i < length xs then Inr (xs ! i) else Inl IndexError)"

definition py_max :: "nat list \<Rightarrow> error + nat" where
  "py_max xs = (case xs of [] \<Rightarrow> Inl ValueError | x # rest \<Rightarrow> Inr (foldl max x rest))"

section \<open>The detector\<close>

text \<open>
  \<^verbatim>\<open>class StammeringDetector\<close>: its two fields, set by the constructor
  (defaults \<open>3\<close> and \<open>5\<close>). The settings are taken as natural numbers.
\<close>

record detector =
  min_repetitions :: nat
  max_ngram_size :: nat

subsection \<open>\<^verbatim>\<open>_tokenize\<close>\<close>

text \<open>
  \<^verbatim>\<open>text.split()\<close>: the maximal runs of non-whitespace characters, in order. \<open>cur\<close> is
  the token being read.
\<close>

fun split_from :: "(codepoint \<Rightarrow> bool) \<Rightarrow> pystr \<Rightarrow> pystr \<Rightarrow> pystr list" where
  "split_from sp cur [] = (if cur = [] then [] else [cur])"
| "split_from sp cur (c # cs) =
     (if sp c then (if cur = [] then split_from sp [] cs else cur # split_from sp [] cs)
      else split_from sp (cur @ [c]) cs)"

definition str_split :: "unicode_db \<Rightarrow> pystr \<Rightarrow> pystr list" where
  "str_split R txt = split_from (isspace R) [] txt"

definition tokenize :: "unicode_db \<Rightarrow> pystr \<Rightarrow> pystr list" where
  "tokenize R txt =
     (let tokens = str_split R txt
      in map (str_lower R) (filter (\<lambda>t. t \<noteq> []) tokens))"

subsection \<open>\<^verbatim>\<open>_get_ngrams\<close>\<close>

text \<open>
  \<^verbatim>\<open>[tuple(tokens[i:i+n]) for i in range(len(tokens) - n + 1)]\<close>. A range with a bound
  of zero or less is empty, which is what the truncated subtraction gives.
\<close>

definition get_ngrams :: "'a list \<Rightarrow> nat \<Rightarrow> 'a list list" where
  "get_ngrams tokens n = map (\<lambda>i. take n (drop i tokens)) [0 ..< length tokens + 1 - n]"

subsection \<open>\<^verbatim>\<open>collections.Counter\<close>\<close>

text \<open>
  A \<^verbatim>\<open>Counter\<close> built from a sequence: the distinct elements in the order of their
  first occurrence, each with its number of occurrences.
\<close>

fun counter_incr :: "'a \<Rightarrow> ('a \<times> nat) list \<Rightarrow> ('a \<times> nat) list" where
  "counter_incr x [] = [(x, 1)]"
| "counter_incr x ((k, c) # kvs) =
     (if k = x then (k, c + 1) # kvs else (k, c) # counter_incr x kvs)"

definition Counter :: "'a list \<Rightarrow> ('a \<times> nat) list" where
  "Counter xs = foldl (\<lambda>m x. counter_incr x m) [] xs"

subsection \<open>\<^verbatim>\<open>_count_max_consecutive\<close> and \<^verbatim>\<open>_count_max_consecutive_any\<close>\<close>

fun count_max_consecutive_loop :: "'a \<Rightarrow> nat \<Rightarrow> nat \<Rightarrow> 'a list \<Rightarrow> nat" where
  "count_max_consecutive_loop target max_count current_count [] = max_count"
| "count_max_consecutive_loop target max_count current_count (ngram # ngrams) =
     (if ngram = target
      then count_max_consecutive_loop target
             (max max_count (current_count + 1)) (current_count + 1) ngrams
      else count_max_consecutive_loop target max_count 0 ngrams)"

definition count_max_consecutive :: "'a list \<Rightarrow> 'a \<Rightarrow> nat" where
  "count_max_consecutive ngrams target = count_max_consecutive_loop target 0 0 ngrams"

fun count_max_consecutive_any_loop :: "nat \<Rightarrow> nat \<Rightarrow> 'a \<Rightarrow> 'a list \<Rightarrow> nat" where
  "count_max_consecutive_any_loop max_count current_count prev_ngram [] = max_count"
| "count_max_consecutive_any_loop max_count current_count prev_ngram (ngram # ngrams) =
     (if ngram = prev_ngram
      then count_max_consecutive_any_loop
             (max max_count (current_count + 1)) (current_count + 1) prev_ngram ngrams
      else count_max_consecutive_any_loop max_count 1 ngram ngrams)"

definition count_max_consecutive_any :: "'a list \<Rightarrow> error + nat" where
  "count_max_consecutive_any ngrams =
     (if ngrams = [] then Inr 0
      else case py_index ngrams 0 of
             Inl e \<Rightarrow> Inl e
           | Inr prev_ngram \<Rightarrow> Inr (count_max_consecutive_any_loop 1 1 prev_ngram (drop 1 ngrams)))"

subsection \<open>\<^verbatim>\<open>_has_ngram_repetition\<close>\<close>

text \<open>
  The first loop, over the items of the translation's counter. \<open>count > m * 1.5\<close>
  compares an integer with a float product; it is read over the reals, which is what
  Python computes as long as the counts stay below \<open>2\<^sup>5\<^sup>1\<close>.
\<close>

fun frequency_loop :: "detector \<Rightarrow> nat \<Rightarrow> nat \<Rightarrow> ('a \<times> nat) list \<Rightarrow> bool" where
  "frequency_loop self n max_source_repetition [] = False"
| "frequency_loop self n max_source_repetition ((ngram, count) # items) =
     (if count \<ge> min_repetitions self then
        (if n > 1 then
           (if real count > real max_source_repetition * 1.5 then True
            else frequency_loop self n max_source_repetition items)
         else
           (if real count > real max_source_repetition * 1.5 then True
            else frequency_loop self n max_source_repetition items))
      else frequency_loop self n max_source_repetition items)"

text \<open>The second loop, over the start positions \<open>i\<close> of the windows.\<close>

fun consecutive_loop :: "detector \<Rightarrow> 'a list \<Rightarrow> 'a list \<Rightarrow> nat list \<Rightarrow> error + bool" where
  "consecutive_loop self translated_ngrams source_ngrams [] = Inr False"
| "consecutive_loop self translated_ngrams source_ngrams (i # rest) =
     (let window = take (min_repetitions self) (drop i translated_ngrams) in
      if length (remdups window) = 1 then
        (case py_index window 0 of
           Inl e \<Rightarrow> Inl e
         | Inr ngram \<Rightarrow>
            (case count_max_consecutive_any source_ngrams of
               Inl e \<Rightarrow> Inl e
             | Inr max_source_consecutive \<Rightarrow>
                (let max_translated_consecutive = count_max_consecutive translated_ngrams ngram in
                 if max_source_consecutive \<ge> min_repetitions self then
                   (if max_translated_consecutive > max_source_consecutive * 2 then Inr True
                    else consecutive_loop self translated_ngrams source_ngrams rest)
                 else Inr True)))
      else consecutive_loop self translated_ngrams source_ngrams rest)"

definition max_source_repetition_of :: "('a \<times> nat) list \<Rightarrow> error + nat" where
  "max_source_repetition_of source_ngram_counts =
     (if source_ngram_counts \<noteq> [] then py_max (map snd source_ngram_counts) else Inr 0)"

definition has_ngram_repetition :: "detector \<Rightarrow> 'a list \<Rightarrow> 'a list \<Rightarrow> nat \<Rightarrow> error + bool" where
  "has_ngram_repetition self translated_tokens source_tokens n =
     (let translated_ngrams = get_ngrams translated_tokens n;
          source_ngrams = get_ngrams source_tokens n;
          translated_ngram_counts = Counter translated_ngrams;
          source_ngram_counts = Counter source_ngrams
      in case max_source_repetition_of source_ngram_counts of
           Inl e \<Rightarrow> Inl e
         | Inr max_source_repetition \<Rightarrow>
             if frequency_loop self n max_source_repetition translated_ngram_counts then Inr True
             else consecutive_loop self translated_ngrams source_ngrams
                    [0 ..< length translated_ngrams + 1 - min_repetitions self])"

subsection \<open>\<^verbatim>\<open>_has_phrase_repetition\<close>\<close>

text \<open>\<^verbatim>\<open>range(1, min(self.max_ngram_size + 1, len(translated_tokens)))\<close>\<close>

definition ngram_sizes :: "detector \<Rightarrow> nat \<Rightarrow> nat list" where
  "ngram_sizes self len_translated_tokens =
     [1 ..< min (max_ngram_size self + 1) len_translated_tokens]"

fun phrase_loop :: "detector \<Rightarrow> 'a list \<Rightarrow> 'a list \<Rightarrow> nat list \<Rightarrow> error + bool" where
  "phrase_loop self translated_tokens source_tokens [] = Inr False"
| "phrase_loop self translated_tokens source_tokens (n # ns) =
     (case has_ngram_repetition self translated_tokens source_tokens n of
        Inl e \<Rightarrow> Inl e
      | Inr flagged \<Rightarrow>
          if flagged then Inr True
          else phrase_loop self translated_tokens source_tokens ns)"

definition has_phrase_repetition :: "unicode_db \<Rightarrow> detector \<Rightarrow> pystr \<Rightarrow> pystr \<Rightarrow> error + bool" where
  "has_phrase_repetition R self translated source =
     (let translated_tokens = tokenize R translated;
          source_tokens = tokenize R source
      in phrase_loop self translated_tokens source_tokens
           (ngram_sizes self (length translated_tokens)))"

subsection \<open>\<^verbatim>\<open>_has_excessive_elongation\<close>\<close>

text \<open>
  \<^verbatim>\<open>re.finditer(r'(.)\1{2,}', s)\<close>: the matches found scanning from the left. At a
  position the pattern matches when the character there is not a newline (all that
  \<open>.\<close> excludes) and at least two copies of it follow; the quantifier is greedy, so
  the match takes every copy, and the scan goes on behind it. Where the pattern does
  not match the scan moves one character on.
\<close>

definition newline :: codepoint where
  "newline = 10"

function finditer :: "pystr \<Rightarrow> pystr list" where
  "finditer [] = []"
| "finditer (c # cs) =
     (let copies = takeWhile (\<lambda>x. x = c) cs in
      if c \<noteq> newline \<and> length copies \<ge> 2
      then (c # copies) # finditer (dropWhile (\<lambda>x. x = c) cs)
      else finditer cs)"
  by pat_completeness auto
termination
  by (relation "measure length") (auto simp: length_dropWhile_le less_Suc_eq_le)

text \<open>
  \<^verbatim>\<open>sum(len(match.group()) for match in matches if match.group()[0].isalnum())\<close>
\<close>

fun elongated_count :: "unicode_db \<Rightarrow> pystr list \<Rightarrow> error + nat" where
  "elongated_count R [] = Inr 0"
| "elongated_count R (m # matches) =
     (case py_index m 0 of
        Inl e \<Rightarrow> Inl e
      | Inr first \<Rightarrow>
         (case elongated_count R matches of
            Inl e \<Rightarrow> Inl e
          | Inr others \<Rightarrow> Inr ((if isalnum R first then length m else 0) + others)))"

definition has_excessive_elongation :: "unicode_db \<Rightarrow> detector \<Rightarrow> pystr \<Rightarrow> pystr \<Rightarrow> error + bool" where
  "has_excessive_elongation R self translated source =
     (let translated_matches = finditer (str_lower R translated);
          source_matches = finditer (str_lower R source)
      in case elongated_count R translated_matches of
           Inl e \<Rightarrow> Inl e
         | Inr translated_count \<Rightarrow>
            (case elongated_count R source_matches of
               Inl e \<Rightarrow> Inl e
             | Inr source_count \<Rightarrow>
                 if translated_count > 40 \<and> translated_count > source_count * 3
                 then Inr True else Inr False))"

subsection \<open>\<^verbatim>\<open>detect\<close> and \<^verbatim>\<open>detect_stammering\<close>\<close>

text \<open>
  \<open>detect_run\<close> is the body of \<^verbatim>\<open>detect\<close>. Beside the result it returns the checks
  it called, in the order of the calls, so that the order of evaluation can be stated.
\<close>

datatype stage = ElongationCheck | PhraseRepetitionCheck

definition detect_run ::
  "unicode_db \<Rightarrow> detector \<Rightarrow> pystr \<Rightarrow> pystr \<Rightarrow> (error + bool) \<times> stage list" where
  "detect_run R self source_sentence translated_sentence =
     (case has_excessive_elongation R self translated_sentence source_sentence of
        Inl e \<Rightarrow> (Inl e, [ElongationCheck])
      | Inr elongated \<Rightarrow>
          if elongated then (Inr True, [ElongationCheck])
          else (case has_phrase_repetition R self translated_sentence source_sentence of
                  Inl e \<Rightarrow> (Inl e, [ElongationCheck, PhraseRepetitionCheck])
                | Inr repeated \<Rightarrow>
                    if repeated then (Inr True, [ElongationCheck, PhraseRepetitionCheck])
                    else (Inr False, [ElongationCheck, PhraseRepetitionCheck])))"

definition detect :: "unicode_db \<Rightarrow> detector \<Rightarrow> pystr \<Rightarrow> pystr \<Rightarrow> error + bool" where
  "detect R self source_sentence translated_sentence =
     fst (detect_run R self source_sentence translated_sentence)"

text \<open>
  \<^verbatim>\<open>StammeringDetector(min_repetitions=3, max_ngram_size=5)\<close>, which are also the
  defaults of the constructor.
\<close>

definition default_detector :: detector where
  "default_detector = \<lparr>min_repetitions = 3, max_ngram_size = 5\<rparr>"

definition detect_stammering :: "unicode_db \<Rightarrow> pystr \<Rightarrow> pystr \<Rightarrow> error + bool" where
  "detect_stammering R source_sentence translated_sentence =
     (let detector = default_detector
      in detect R detector source_sentence translated_sentence)"

section \<open>The character database on ASCII text\<close>

text \<open>
  What CPython's database says on the ASCII code points: \<^verbatim>\<open>str.lower\<close> and
  \<^verbatim>\<open>str.upper\<close> map the 26 letters and leave the rest, the whitespace of
  \<^verbatim>\<open>str.split()\<close> is U+0009 to U+000D and U+001C to U+0020, and the alphanumeric
  characters are the digits and the letters.
\<close>

definition ascii_lower :: "codepoint \<Rightarrow> codepoint" where
  "ascii_lower c = (if 65 \<le> c \<and> c \<le> 90 then c + 32 else c)"

definition ascii_upper :: "codepoint \<Rightarrow> codepoint" where
  "ascii_upper c = (if 97 \<le> c \<and> c \<le> 122 then c - 32 else c)"

definition ascii_isspace :: "codepoint \<Rightarrow> bool" where
  "ascii_isspace c \<longleftrightarrow> 9 \<le> c \<and> c \<le> 13 \<or> 28 \<le> c \<and> c \<le> 32"

definition ascii_isalnum :: "codepoint \<Rightarrow> bool" where
  "ascii_isalnum c \<longleftrightarrow> 48 \<le> c \<and> c \<le> 57 \<or> 65 \<le> c \<and> c \<le> 90 \<or> 97 \<le> c \<and> c \<le> 122"

definition is_ascii :: "pystr \<Rightarrow> bool" where
  "is_ascii s = list_all (\<lambda>c. c < 128) s"

definition agrees_on_ascii :: "unicode_db \<Rightarrow> bool" where
  "agrees_on_ascii R \<longleftrightarrow>
     (\<forall>s. is_ascii s \<longrightarrow> str_lower R s = map ascii_lower s \<and> str_upper R s = map ascii_upper s) \<and>
     (\<forall>c. c < 128 \<longrightarrow> isspace R c = ascii_isspace c \<and> isalnum R c = ascii_isalnum c)"

text \<open>
  \<^verbatim>\<open>str.lower\<close> is not a map over the characters (a capital sigma is lowered by
  its neighbours), but it never looks across a space, which it leaves as it is.
\<close>

definition lower_splits_at_space :: "unicode_db \<Rightarrow> bool" where
  "lower_splits_at_space R \<longleftrightarrow>
     (\<forall>a b. str_lower R (a @ 32 # b) = str_lower R a @ 32 # str_lower R b)"

text \<open>
  A database to compute with. It answers as CPython does on every text over ASCII and
  U+00DF (the sharp s, an alphanumeric character whose uppercase is \<^verbatim>\<open>SS\<close>); the
  other code points are left as they are, neither alphanumeric nor whitespace.
\<close>

definition basic_upper :: "codepoint \<Rightarrow> pystr" where
  "basic_upper c = (if c = 223 then [83, 83] else [ascii_upper c])"

definition basic_db :: unicode_db where
  "basic_db =
     \<lparr>str_lower = map ascii_lower,
      str_upper = (\<lambda>s. concat (map basic_upper s)),
      isalnum = (\<lambda>c. ascii_isalnum c \<or> c = 223),
      isspace = ascii_isspace\<rparr>"

section \<open>The character database on Latin-1 text\<close>

text \<open>
  A second database to compute with, for texts with accented letters. It answers as
  CPython does on every text over U+0000 to U+00FF and on the uppercase and lowercase
  forms of such texts, which add U+0178, U+039C and U+03BC; the other code points are
  left as they are, neither alphanumeric nor whitespace. Uppercasing keeps one
  character for one, but for the sharp s.
\<close>

definition latin1_lower :: "codepoint \<Rightarrow> codepoint" where
  "latin1_lower c =
     (if 65 \<le> c \<and> c \<le> 90 \<or> 192 \<le> c \<and> c \<le> 214 \<or> 216 \<le> c \<and> c \<le> 222 \<or> c = 924
      then c + 32
      else if c = 376 then 255 else c)"

definition latin1_upper :: "codepoint \<Rightarrow> pystr" where
  "latin1_upper c =
     (if c = 223 then [83, 83]
      else if c = 181 then [924]
      else if c = 255 then [376]
      else if 97 \<le> c \<and> c \<le> 122 \<or> 224 \<le> c \<and> c \<le> 246 \<or> 248 \<le> c \<and> c \<le> 254 \<or> c = 956
      then [c - 32]
      else [c])"

definition latin1_isalnum :: "codepoint \<Rightarrow> bool" where
  "latin1_isalnum c \<longleftrightarrow>
     ascii_isalnum c \<or> c = 170 \<or> c = 178 \<or> c = 179 \<or> c = 181 \<or> c = 185 \<or> c = 186 \<or>
     188 \<le> c \<and> c \<le> 190 \<or> 192 \<le> c \<and> c \<le> 214 \<or> 216 \<le> c \<and> c \<le> 246 \<or>
     248 \<le> c \<and> c \<le> 255 \<or> c = 376 \<or> c = 924 \<or> c = 956"

definition latin1_isspace :: "codepoint \<Rightarrow> bool" where
  "latin1_isspace c \<longleftrightarrow> ascii_isspace c \<or> c = 133 \<or> c = 160"

definition latin1_db :: unicode_db where
  "latin1_db =
     \<lparr>str_lower = map latin1_lower,
      str_upper = (\<lambda>s. concat (map latin1_upper s)),
      isalnum = latin1_isalnum,
      isspace = latin1_isspace\<rparr>"

text \<open>
  The uppercase of a single character other than the sharp s, and the texts over
  U+0000 to U+00FF without the two characters of that range that lowercasing does
  not restore after uppercasing, U+00B5 and U+00DF.
\<close>

definition latin1_upper1 :: "codepoint \<Rightarrow> codepoint" where
  "latin1_upper1 c =
     (if c = 181 then 924
      else if c = 255 then 376
      else if 97 \<le> c \<and> c \<le> 122 \<or> 224 \<le> c \<and> c \<le> 246 \<or> 248 \<le> c \<and> c \<le> 254 \<or> c = 956
      then c - 32
      else c)"

definition restored_latin1 :: "pystr \<Rightarrow> bool" where
  "restored_latin1 s = list_all (\<lambda>c. c < 256 \<and> c \<noteq> 181 \<and> c \<noteq> 223) s"

section \<open>The vocabulary of the specification\<close>

text \<open>
  The largest number of occurrences of a source n-gram, \<open>0\<close> when there is none.
\<close>

definition max_source_freq :: "'a list \<Rightarrow> nat" where
  "max_source_freq source_ngrams =
     (if source_ngrams = [] then 0 else Max (count_list source_ngrams ` set source_ngrams))"

text \<open>
  The frequency rule: some translated n-gram occurs \<open>c \<ge> 3\<close> times with
  \<open>c > max_source_freq * 1.5\<close>.
\<close>

definition frequency_rule :: "'a list \<Rightarrow> 'a list \<Rightarrow> bool" where
  "frequency_rule translated_ngrams source_ngrams =
     (\<exists>g\<in>set translated_ngrams.
        count_list translated_ngrams g \<ge> 3 \<and>
        real (count_list translated_ngrams g) > real (max_source_freq source_ngrams) * 1.5)"

text \<open>
  The maximal runs of equal neighbours of a sequence, in order: every run is as long
  as it can be, and the runs put together again are the sequence.
\<close>

function runs :: "'a list \<Rightarrow> 'a list list" where
  "runs [] = []"
| "runs (x # xs) = (x # takeWhile (\<lambda>y. y = x) xs) # runs (dropWhile (\<lambda>y. y = x) xs)"
  by pat_completeness auto
termination
  by (relation "measure length") (auto simp: length_dropWhile_le less_Suc_eq_le)

text \<open>
  The elongation score of a lowercased text: the lengths, summed, of its runs of
  three or more characters whose character is alphanumeric. The score of a text is
  the score of its lowercase form.
\<close>

definition run_score :: "unicode_db \<Rightarrow> pystr \<Rightarrow> nat" where
  "run_score R lowered =
     sum_list (map length (filter (\<lambda>r. length r \<ge> 3 \<and> isalnum R (hd r)) (runs lowered)))"

definition elongation_score :: "unicode_db \<Rightarrow> pystr \<Rightarrow> nat" where
  "elongation_score R txt = run_score R (str_lower R txt)"

text \<open>
  The longest run of a sequence, and the longest run of one value \<open>g\<close> in it;
  \<open>0\<close> when there is no run.
\<close>

definition longest_run :: "'a list \<Rightarrow> nat" where
  "longest_run xs = foldr max (map length (runs xs)) 0"

definition longest_run_of :: "'a \<Rightarrow> 'a list \<Rightarrow> nat" where
  "longest_run_of g xs = foldr max (map length (filter (\<lambda>r. hd r = g) (runs xs))) 0"

text \<open>
  Some window of three consecutive n-grams holds the value \<open>g\<close> three times.
\<close>

definition uniform_window :: "'a list \<Rightarrow> 'a \<Rightarrow> bool" where
  "uniform_window ngrams g = (\<exists>i\<in>set [0 ..< length ngrams]. take 3 (drop i ngrams) = [g, g, g])"

text \<open>
  Lowercasing restores the text after uppercasing: the uppercased text has the
  lowercase form of the text and its tokens. The detector reads nothing else of a
  text.
\<close>

definition survives_uppercasing :: "unicode_db \<Rightarrow> pystr \<Rightarrow> bool" where
  "survives_uppercasing R s \<longleftrightarrow>
     str_lower R (str_upper R s) = str_lower R s \<and>
     tokenize R (str_upper R s) = tokenize R s"

text \<open>
  A translation with \<open>k\<close> more copies of a word appended, each after a space:
  \<^verbatim>\<open>t + " " + w + " " + w ...\<close>
\<close>

definition append_copies :: "pystr \<Rightarrow> pystr \<Rightarrow> nat \<Rightarrow> pystr" where
  "append_copies t w k = t @ concat (replicate k (32 # w))"

text \<open>
  The detector with the two branches of the frequency loop collapsed into one rule;
  everything else is as in the source.
\<close>

fun frequency_loop_collapsed :: "detector \<Rightarrow> nat \<Rightarrow> ('a \<times> nat) list \<Rightarrow> bool" where
  "frequency_loop_collapsed self max_source_repetition [] = False"
| "frequency_loop_collapsed self max_source_repetition ((ngram, count) # items) =
     (if count \<ge> min_repetitions self \<and> real count > real max_source_repetition * 1.5 then True
      else frequency_loop_collapsed self max_source_repetition items)"

definition has_ngram_repetition_collapsed ::
  "detector \<Rightarrow> 'a list \<Rightarrow> 'a list \<Rightarrow> nat \<Rightarrow> error + bool" where
  "has_ngram_repetition_collapsed self translated_tokens source_tokens n =
     (let translated_ngrams = get_ngrams translated_tokens n;
          source_ngrams = get_ngrams source_tokens n;
          translated_ngram_counts = Counter translated_ngrams;
          source_ngram_counts = Counter source_ngrams
      in case max_source_repetition_of source_ngram_counts of
           Inl e \<Rightarrow> Inl e
         | Inr max_source_repetition \<Rightarrow>
             if frequency_loop_collapsed self max_source_repetition translated_ngram_counts
             then Inr True
             else consecutive_loop self translated_ngrams source_ngrams
                    [0 ..< length translated_ngrams + 1 - min_repetitions self])"

fun phrase_loop_collapsed :: "detector \<Rightarrow> 'a list \<Rightarrow> 'a list \<Rightarrow> nat list \<Rightarrow> error + bool" where
  "phrase_loop_collapsed self translated_tokens source_tokens [] = Inr False"
| "phrase_loop_collapsed self translated_tokens source_tokens (n # ns) =
     (case has_ngram_repetition_collapsed self translated_tokens source_tokens n of
        Inl e \<Rightarrow> Inl e
      | Inr flagged \<Rightarrow>
          if flagged then Inr True
          else phrase_loop_collapsed self translated_tokens source_tokens ns)"

definition detect_collapsed :: "unicode_db \<Rightarrow> detector \<Rightarrow> pystr \<Rightarrow> pystr \<Rightarrow> error + bool" where
  "detect_collapsed R self source_sentence translated_sentence =
     (case has_excessive_elongation R self translated_sentence source_sentence of
        Inl e \<Rightarrow> Inl e
      | Inr elongated \<Rightarrow>
          if elongated then Inr True
          else (let translated_tokens = tokenize R translated_sentence;
                    source_tokens = tokenize R source_sentence
                in phrase_loop_collapsed self translated_tokens source_tokens
                     (ngram_sizes self (length translated_tokens))))"

section \<open>Example texts\<close>

text \<open>
  The third scenario of the specification.
\<close>

definition ciao_source :: pystr where "ciao_source = str ''ciao ciao ciao ciao''"

definition bye_translated :: pystr where "bye_translated = str ''bye bye bye bye''"

text \<open>
  A translation in which two values repeat, \<^verbatim>\<open>a\<close> three times and \<^verbatim>\<open>b\<close> seven
  times in a row, and a source whose longest run is three while \<^verbatim>\<open>x\<close> occurs five
  times in it.
\<close>

definition two_runs_source :: pystr where "two_runs_source = str ''x x x y x x''"

definition two_runs_translated :: pystr where "two_runs_translated = str ''a a a b b b b b b b''"

text \<open>
  The text \<^verbatim>\<open>U+00DF ss U+00DF\<close>: three tokens, the sharp s twice with \<^verbatim>\<open>ss\<close>
  between. CPython uppercases it to \<^verbatim>\<open>SS SS SS\<close>.
\<close>

definition sharp_s_text :: pystr where "sharp_s_text = [223, 32, 115, 115, 32, 223]"

text \<open>
  The sentences of the test file with an accented letter or an apostrophe:
  \<^verbatim>\<open>Sono cos\<close>U+00EC\<^verbatim>\<open> stanco\<close> with its translation, and
  \<^verbatim>\<open>Questo \<close>U+00E8\<^verbatim>\<open> veramente l'ultimo test\<close> with its translation; and
  the word \<^verbatim>\<open>cos\<close>U+00EC three times.
\<close>

definition cosi_source :: pystr where
  "cosi_source = str ''Sono cos'' @ [236] @ str '' stanco''"

definition tired_translated :: pystr where
  "tired_translated = str ''I'' @ [39] @ str ''m sooo tired''"

definition questo_source :: pystr where
  "questo_source = str ''Questo '' @ [232] @ str '' veramente l'' @ [39] @ str ''ultimo test''"

definition really_translated :: pystr where
  "really_translated =
     str ''This is really the is really the is really the is really the last test''"

definition cosi_thrice :: pystr where
  "cosi_thrice = str ''cos'' @ [236] @ str '' cos'' @ [236] @ str '' cos'' @ [236]"

section \<open>The values of the checks\<close>

text \<open>
  None of the functions above raises. These are the values they return, written
  without the error cases; the lemmas below prove each function equal to \<open>Inr\<close> of
  its value.
\<close>

definition max_consecutive_any :: "'a list \<Rightarrow> nat" where
  "max_consecutive_any ngrams =
     (case ngrams of [] \<Rightarrow> 0 | g # rest \<Rightarrow> count_max_consecutive_any_loop 1 1 g rest)"

definition elongation_sum :: "unicode_db \<Rightarrow> pystr list \<Rightarrow> nat" where
  "elongation_sum R matches =
     sum_list (map length (filter (\<lambda>m. case m of [] \<Rightarrow> False | c # _ \<Rightarrow> isalnum R c) matches))"

text \<open>
  Whether the second loop returns true at the window that starts at \<open>i\<close>, and
  whether the per-size check returns true.
\<close>

definition window_flagged :: "detector \<Rightarrow> 'a list \<Rightarrow> nat \<Rightarrow> nat \<Rightarrow> bool" where
  "window_flagged self translated_ngrams max_source_consecutive i =
     (case take (min_repetitions self) (drop i translated_ngrams) of
        [] \<Rightarrow> False
      | g # w \<Rightarrow> set w \<subseteq> {g} \<and>
          (max_source_consecutive < min_repetitions self \<or>
           count_max_consecutive translated_ngrams g > max_source_consecutive * 2))"

definition ngram_flagged :: "detector \<Rightarrow> 'a list \<Rightarrow> 'a list \<Rightarrow> nat \<Rightarrow> bool" where
  "ngram_flagged self tt st n =
     (let tn = get_ngrams tt n; sn = get_ngrams st n
      in (\<exists>g\<in>set tn. count_list tn g \<ge> min_repetitions self \<and>
              real (count_list tn g) > real (max_source_freq sn) * 1.5) \<or>
         (\<exists>i\<in>set [0 ..< length tn + 1 - min_repetitions self].
              window_flagged self tn (max_consecutive_any sn) i))"

text \<open>
  What one run of characters adds to the count of the elongation check: its length
  when the pattern matches it and its character is alphanumeric.
\<close>

definition run_weight :: "unicode_db \<Rightarrow> pystr \<Rightarrow> nat" where
  "run_weight R r = (if length r \<ge> 3 \<and> hd r \<noteq> newline \<and> isalnum R (hd r) then length r else 0)"

text \<open>
  The invariant of the loop that builds a counter.
\<close>

definition counts_of :: "('a \<times> nat) list \<Rightarrow> 'a list \<Rightarrow> bool" where
  "counts_of m ys \<longleftrightarrow> distinct (map fst m) \<and> set m = (\<lambda>g. (g, count_list ys g)) ` set ys"

section \<open>Facts about the functions\<close>

subsection \<open>The functions return values\<close>

lemma count_max_consecutive_any_Inr:
  "count_max_consecutive_any ngrams = Inr (max_consecutive_any ngrams)"
  by (cases ngrams) (simp_all add: count_max_consecutive_any_def max_consecutive_any_def py_index_def)

lemma finditer_nonempty: "m \<in> set (finditer s) \<Longrightarrow> m \<noteq> []"
  by (induction s rule: finditer.induct) (auto simp: Let_def split: if_splits)

lemma elongated_count_Inr:
  "\<forall>m\<in>set ms. m \<noteq> [] \<Longrightarrow> elongated_count R ms = Inr (elongation_sum R ms)"
proof (induction ms)
  case Nil
  show ?case by (simp add: elongation_sum_def)
next
  case (Cons m ms)
  then obtain c cs where m: "m = c # cs" by (cases m) auto
  from Cons have "elongated_count R ms = Inr (elongation_sum R ms)" by simp
  then show ?case by (simp add: m py_index_def elongation_sum_def)
qed

lemma elongated_count_finditer:
  "elongated_count R (finditer s) = Inr (elongation_sum R (finditer s))"
  by (rule elongated_count_Inr) (blast dest: finditer_nonempty)

lemma has_excessive_elongation_Inr:
  "has_excessive_elongation R self translated source =
     Inr (elongation_sum R (finditer (str_lower R translated)) > 40 \<and>
          elongation_sum R (finditer (str_lower R translated)) >
            elongation_sum R (finditer (str_lower R source)) * 3)"
  by (simp add: has_excessive_elongation_def elongated_count_finditer)

lemma remdups_singleton_iff:
  "length (remdups xs) = 1 \<longleftrightarrow> (\<exists>g w. xs = g # w \<and> set w \<subseteq> {g})"
proof (cases xs)
  case Nil
  then show ?thesis by simp
next
  case (Cons g w)
  have "length (remdups xs) = card (set xs)" by (simp add: length_remdups_card_conv)
  moreover have "card (set xs) = 1 \<longleftrightarrow> set w \<subseteq> {g}"
  proof
    assume "card (set xs) = 1"
    then obtain a where "set xs = {a}" by (auto simp: card_1_singleton_iff)
    with Cons show "set w \<subseteq> {g}" by auto
  next
    assume "set w \<subseteq> {g}"
    with Cons have "set xs = {g}" by auto
    then show "card (set xs) = 1" by simp
  qed
  ultimately show ?thesis using Cons by simp
qed

lemma consecutive_loop_Inr:
  "consecutive_loop self tn sn is =
     Inr (\<exists>i\<in>set is. window_flagged self tn (max_consecutive_any sn) i)"
proof (induction "is")
  case Nil
  show ?case by simp
next
  case (Cons i rest)
  let ?w = "take (min_repetitions self) (drop i tn)"
  show ?case
  proof (cases "length (remdups ?w) = 1")
    case False
    then have "\<not> window_flagged self tn (max_consecutive_any sn) i"
      using remdups_singleton_iff [of ?w]
      by (auto simp: window_flagged_def split: list.splits)
    with False Cons show ?thesis by (simp add: Let_def)
  next
    case True
    then obtain g w where w: "?w = g # w" "set w \<subseteq> {g}"
      using remdups_singleton_iff [of ?w] by auto
    with True Cons show ?thesis
      by (auto simp: Let_def py_index_def count_max_consecutive_any_Inr window_flagged_def)
  qed
qed

subsection \<open>The counter\<close>

lemma counter_incr_fresh:
  "x \<notin> fst ` set m \<Longrightarrow> counter_incr x m = m @ [(x, 1)]"
  by (induction m) auto

lemma counter_incr_present:
  "distinct (map fst m) \<Longrightarrow> (x, c) \<in> set m \<Longrightarrow>
     map fst (counter_incr x m) = map fst m \<and>
     set (counter_incr x m) = insert (x, c + 1) (set m - {(x, c)})"
proof (induction m)
  case Nil
  then show ?case by simp
next
  case (Cons kv m)
  obtain k v where kv: "kv = (k, v)" by (cases kv)
  show ?case
  proof (cases "k = x")
    case True
    with Cons.prems kv have "v = c" by (auto simp: image_iff)
    moreover from Cons.prems kv True have "(x, c) \<notin> set m" by (auto simp: image_iff)
    ultimately show ?thesis using kv True by auto
  next
    case False
    with Cons kv show ?thesis by auto
  qed
qed

lemma counts_of_step:
  assumes "counts_of m ys"
  shows "counts_of (counter_incr x m) (ys @ [x])"
proof (cases "x \<in> set ys")
  case False
  with assms have "x \<notin> fst ` set m" by (auto simp: counts_of_def)
  then have "counter_incr x m = m @ [(x, 1)]" by (rule counter_incr_fresh)
  with assms False show ?thesis
    by (auto simp: counts_of_def image_iff)
next
  case True
  with assms have mem: "(x, count_list ys x) \<in> set m" and d: "distinct (map fst m)"
    by (auto simp: counts_of_def)
  from counter_incr_present [OF d mem]
  have k: "map fst (counter_incr x m) = map fst m"
    and s: "set (counter_incr x m) = insert (x, count_list ys x + 1) (set m - {(x, count_list ys x)})"
    by simp_all
  have "set (counter_incr x m) = (\<lambda>g. (g, count_list (ys @ [x]) g)) ` set (ys @ [x])"
    unfolding s using assms True by (auto simp: counts_of_def image_iff)
  with k d show ?thesis by (simp add: counts_of_def)
qed

lemma counts_of_Counter: "counts_of (Counter xs) xs"
proof (induction xs rule: rev_induct)
  case Nil
  show ?case by (simp add: Counter_def counts_of_def)
next
  case (snoc x xs)
  then show ?case using counts_of_step [of "Counter xs" xs x] by (simp add: Counter_def)
qed

lemma set_Counter: "set (Counter xs) = (\<lambda>g. (g, count_list xs g)) ` set xs"
  using counts_of_Counter [of xs] by (simp add: counts_of_def)

lemma Counter_empty_iff: "Counter xs = [] \<longleftrightarrow> xs = []"
  using set_Counter [of xs] by (metis image_is_empty set_empty)

lemma foldl_max_Max: "foldl max (x::nat) xs = Max (set (x # xs))"
proof (induction xs arbitrary: x)
  case Nil
  show ?case by simp
next
  case (Cons y ys)
  have "foldl max x (y # ys) = Max (set (max x y # ys))" using Cons by simp
  also have "\<dots> = Max (set (x # y # ys))"
    by (cases "ys = []") (simp_all add: max.assoc)
  finally show ?case .
qed

subsection \<open>The per-size check and the detector\<close>

lemma max_source_repetition_of_Counter:
  "max_source_repetition_of (Counter sn) = Inr (max_source_freq sn)"
proof (cases "sn = []")
  case True
  then show ?thesis
    by (simp add: max_source_repetition_of_def max_source_freq_def Counter_def)
next
  case False
  then have ne: "Counter sn \<noteq> []" by (simp add: Counter_empty_iff)
  then obtain kv rest where c: "Counter sn = kv # rest" by (cases "Counter sn") auto
  have "py_max (map snd (Counter sn)) = Inr (Max (set (map snd (Counter sn))))"
    by (simp add: c py_max_def foldl_max_Max)
  moreover have "set (map snd (Counter sn)) = count_list sn ` set sn"
    by (simp add: set_Counter image_image)
  ultimately show ?thesis
    using False ne by (simp add: max_source_repetition_of_def max_source_freq_def)
qed

lemma frequency_loop_iff:
  "frequency_loop self n m items \<longleftrightarrow>
     (\<exists>(g, c)\<in>set items. c \<ge> min_repetitions self \<and> real c > real m * 1.5)"
  by (induction self n m items rule: frequency_loop.induct) auto

lemma frequency_loop_Counter:
  "frequency_loop self n m (Counter tn) \<longleftrightarrow>
     (\<exists>g\<in>set tn. count_list tn g \<ge> min_repetitions self \<and> real (count_list tn g) > real m * 1.5)"
  by (auto simp: frequency_loop_iff set_Counter)

lemma has_ngram_repetition_Inr:
  "has_ngram_repetition self tt st n = Inr (ngram_flagged self tt st n)"
  by (auto simp: has_ngram_repetition_def Let_def max_source_repetition_of_Counter
      frequency_loop_Counter consecutive_loop_Inr ngram_flagged_def)

lemma phrase_loop_Inr:
  "phrase_loop self tt st ns = Inr (\<exists>n\<in>set ns. ngram_flagged self tt st n)"
  by (induction ns) (simp_all add: has_ngram_repetition_Inr)

lemma has_phrase_repetition_Inr:
  "has_phrase_repetition R self translated source =
     Inr (\<exists>n\<in>set (ngram_sizes self (length (tokenize R translated))).
            ngram_flagged self (tokenize R translated) (tokenize R source) n)"
  by (simp add: has_phrase_repetition_def Let_def phrase_loop_Inr)

lemma detect_run_eq:
  "detect_run R self s t =
     (if has_excessive_elongation R self t s = Inr True then (Inr True, [ElongationCheck])
      else (has_phrase_repetition R self t s, [ElongationCheck, PhraseRepetitionCheck]))"
  by (auto simp: detect_run_def has_excessive_elongation_Inr has_phrase_repetition_Inr)

lemma detect_eq:
  "detect R self s t =
     (if has_excessive_elongation R self t s = Inr True then Inr True
      else has_phrase_repetition R self t s)"
  by (simp add: detect_def detect_run_eq)

lemma detect_stammering_eq:
  "detect_stammering R s t = detect R default_detector s t"
  by (simp add: detect_stammering_def default_detector_def)

lemma get_ngrams_short: "length tokens < n \<Longrightarrow> get_ngrams tokens n = []"
  by (simp add: get_ngrams_def)

subsection \<open>Runs and the elongation count\<close>

text \<open>
  \<open>runs\<close> cuts a sequence into its maximal runs: the runs put together are the
  sequence, a run is not empty and holds one value, and neighbouring runs hold
  different values.
\<close>

lemma concat_runs: "concat (runs xs) = xs"
  by (induction xs rule: runs.induct) simp_all

lemma runs_uniform: "r \<in> set (runs xs) \<Longrightarrow> r \<noteq> [] \<and> (\<forall>x\<in>set r. x = hd r)"
proof (induction xs rule: runs.induct)
  case 1
  then show ?case by simp
next
  case (2 x xs)
  from "2.prems" consider "r = x # takeWhile (\<lambda>y. y = x) xs"
    | "r \<in> set (runs (dropWhile (\<lambda>y. y = x) xs))" by auto
  then show ?case
  proof cases
    case 1
    then show ?thesis using set_takeWhileD [of _ "\<lambda>y. y = x" xs] by auto
  next
    case 2
    then show ?thesis by (rule "2.IH")
  qed
qed

lemma hd_runs: "xs \<noteq> [] \<Longrightarrow> runs xs \<noteq> [] \<and> hd (hd (runs xs)) = hd xs"
  by (cases xs) simp_all

lemma runs_maximal: "distinct_adj (map hd (runs xs))"
proof (induction xs rule: runs.induct)
  case 1
  show ?case by simp
next
  case (2 x xs)
  let ?dw = "dropWhile (\<lambda>y. y = x) xs"
  show ?case
  proof (cases "?dw = []")
    case True
    have "map hd (runs (x # xs)) = [x]"
      by (simp only: runs.simps True) simp
    then show ?thesis by simp
  next
    case False
    then have ne: "hd ?dw \<noteq> x" using hd_dropWhile [of "\<lambda>y. y = x" xs] by simp
    from False hd_runs [of ?dw] obtain r rs where r: "runs ?dw = r # rs" "hd r = hd ?dw"
      by (cases "runs ?dw") auto
    have "map hd (runs (x # xs)) = x # hd r # map hd rs"
      by (simp only: runs.simps r(1)) simp
    moreover have "distinct_adj (hd r # map hd rs)" using "2.IH" r(1) by simp
    ultimately show ?thesis using ne r(2) by (simp add: distinct_adj_Cons)
  qed
qed

lemma runs_nonempty: "r \<in> set (runs xs) \<Longrightarrow> r \<noteq> []"
  by (induction xs rule: runs.induct) auto

lemma runs_skip:
  "runs cs =
     (if takeWhile (\<lambda>y. y = c) cs = [] then runs (dropWhile (\<lambda>y. y = c) cs)
      else takeWhile (\<lambda>y. y = c) cs # runs (dropWhile (\<lambda>y. y = c) cs))"
  by (cases cs) auto

lemma finditer_runs:
  "finditer s = filter (\<lambda>r. length r \<ge> 3 \<and> hd r \<noteq> newline) (runs s)"
proof (induction s rule: finditer.induct)
  case 1
  show ?case by simp
next
  case (2 c cs)
  let ?tw = "takeWhile (\<lambda>x. x = c) cs" and ?dw = "dropWhile (\<lambda>x. x = c) cs"
  show ?case
  proof (cases "c \<noteq> newline \<and> length ?tw \<ge> 2")
    case True
    with "2.IH"(1) [OF refl True] show ?thesis by (simp add: Let_def)
  next
    case False
    have hd_tw: "?tw \<noteq> [] \<Longrightarrow> hd ?tw = c"
      by (cases cs) (auto split: if_splits)
    from False have "finditer (c # cs) = finditer cs" by (auto simp: Let_def)
    also have "\<dots> = filter (\<lambda>r. length r \<ge> 3 \<and> hd r \<noteq> newline) (runs cs)"
      using "2.IH"(2) [OF refl False] .
    also have "\<dots> = filter (\<lambda>r. length r \<ge> 3 \<and> hd r \<noteq> newline) (runs ?dw)"
      using False hd_tw by (subst runs_skip [of cs c]) auto
    also have "\<dots> = filter (\<lambda>r. length r \<ge> 3 \<and> hd r \<noteq> newline) (runs (c # cs))"
      using False by auto
    finally show ?thesis .
  qed
qed

lemma elongation_sum_runs:
  "elongation_sum R (finditer s) = sum_list (map (run_weight R) (runs s))"
proof -
  have "elongation_sum R (filter (\<lambda>r. length r \<ge> 3 \<and> hd r \<noteq> newline) rs) =
        sum_list (map (run_weight R) rs)" if "\<forall>r\<in>set rs. r \<noteq> []" for rs
    using that
  proof (induction rs)
    case Nil
    show ?case by (simp add: elongation_sum_def)
  next
    case (Cons r rs)
    then obtain c w where "r = c # w" by (cases r) auto
    with Cons show ?case by (simp add: elongation_sum_def run_weight_def)
  qed
  then show ?thesis by (simp add: finditer_runs runs_nonempty)
qed

lemma run_score_weight:
  "\<not> isalnum R newline \<Longrightarrow> run_score R s = sum_list (map (run_weight R) (runs s))"
proof -
  assume nl: "\<not> isalnum R newline"
  have "sum_list (map length (filter (\<lambda>r. length r \<ge> 3 \<and> isalnum R (hd r)) rs)) =
        sum_list (map (run_weight R) rs)" for rs
  proof (induction rs)
    case Nil
    show ?case by simp
  next
    case (Cons r rs)
    then show ?case using nl by (auto simp: run_weight_def)
  qed
  then show ?thesis by (simp add: run_score_def)
qed

lemma run_weight_extend: "run_weight R (c # cs) \<le> run_weight R (c # cs @ ys)"
  by (simp add: run_weight_def)

lemma elongation_weight_append:
  "sum_list (map (run_weight R) (runs x)) \<le> sum_list (map (run_weight R) (runs (x @ y)))"
proof (induction x rule: runs.induct)
  case 1
  show ?case by simp
next
  case (2 c cs)
  show ?case
  proof (cases "\<forall>z\<in>set cs. z = c")
    case True
    then have tw: "takeWhile (\<lambda>y. y = c) cs = cs" and dw: "dropWhile (\<lambda>y. y = c) cs = []"
      by simp_all
    from True have twy: "takeWhile (\<lambda>z. z = c) (cs @ y) = cs @ takeWhile (\<lambda>z. z = c) y"
      and dwy: "dropWhile (\<lambda>z. z = c) (cs @ y) = dropWhile (\<lambda>z. z = c) y"
      by (simp_all add: takeWhile_append dropWhile_append)
    have "sum_list (map (run_weight R) (runs (c # cs))) = run_weight R (c # cs)"
      by (simp only: runs.simps tw dw) simp
    also have "\<dots> \<le> run_weight R (c # cs @ takeWhile (\<lambda>z. z = c) y)"
      by (rule run_weight_extend)
    also have "\<dots> \<le> sum_list (map (run_weight R) (runs ((c # cs) @ y)))"
      by (simp only: append_Cons runs.simps twy dwy) simp
    finally show ?thesis .
  next
    case False
    then have "takeWhile (\<lambda>z. z = c) (cs @ y) = takeWhile (\<lambda>z. z = c) cs"
      and "dropWhile (\<lambda>z. z = c) (cs @ y) = dropWhile (\<lambda>z. z = c) cs @ y"
      by (auto simp: takeWhile_append dropWhile_append)
    with "2.IH" show ?thesis by simp
  qed
qed

lemma elongation_sum_append:
  "elongation_sum R (finditer x) \<le> elongation_sum R (finditer (x @ y))"
  by (simp add: elongation_sum_runs elongation_weight_append)

subsection \<open>The run-length loops\<close>

lemma count_max_consecutive_loop_ge: "mx \<le> count_max_consecutive_loop g mx cur xs"
  by (induction xs arbitrary: mx cur) (auto intro: order_trans [OF max.cobounded1])

lemma count_max_consecutive_loop_replicate:
  "cur \<le> mx \<Longrightarrow> cur + k \<le> count_max_consecutive_loop g mx cur (replicate k g @ xs)"
proof (induction k arbitrary: mx cur)
  case 0
  then show ?case
    using count_max_consecutive_loop_ge [of mx g cur xs] by simp
next
  case (Suc k)
  from Suc.IH [of "cur + 1" "max mx (cur + 1)"] show ?case by simp
qed

lemma count_max_consecutive_loop_window:
  "cur \<le> mx \<Longrightarrow> k \<le> count_max_consecutive_loop g mx cur (as @ replicate k g @ bs)"
proof (induction as arbitrary: mx cur)
  case Nil
  from count_max_consecutive_loop_replicate [OF Nil, of k g bs] show ?case by simp
next
  case (Cons a as)
  show ?case
  proof (cases "a = g")
    case True
    with Cons.IH [of "cur + 1" "max mx (cur + 1)"] show ?thesis by simp
  next
    case False
    with Cons.IH [of 0 mx] show ?thesis by simp
  qed
qed

lemma count_max_consecutive_window:
  "k \<le> count_max_consecutive (as @ replicate k g @ bs) g"
  by (simp add: count_max_consecutive_def count_max_consecutive_loop_window)

lemma count_max_consecutive_append:
  "count_max_consecutive xs g \<le> count_max_consecutive (xs @ ys) g"
proof -
  have "count_max_consecutive_loop g mx cur xs \<le> count_max_consecutive_loop g mx cur (xs @ ys)"
    for mx cur
    by (induction xs arbitrary: mx cur) (simp_all add: count_max_consecutive_loop_ge)
  then show ?thesis by (simp add: count_max_consecutive_def)
qed

lemma count_max_consecutive_loops:
  "mx \<le> mx' \<Longrightarrow> 1 \<le> mx' \<Longrightarrow> (if prev = g then cur \<le> cur' else cur = 0) \<Longrightarrow>
     count_max_consecutive_loop g mx cur xs \<le> count_max_consecutive_any_loop mx' cur' prev xs"
proof (induction xs arbitrary: mx mx' cur cur' prev)
  case Nil
  then show ?case by simp
next
  case (Cons x xs)
  show ?case
  proof (cases "x = g")
    case xg: True
    show ?thesis
    proof (cases "x = prev")
      case True
      with xg Cons.prems
        Cons.IH [of "max mx (cur + 1)" "max mx' (cur' + 1)" prev "cur + 1" "cur' + 1"]
      show ?thesis by (simp add: max.coboundedI1 max.coboundedI2)
    next
      case False
      with xg Cons.prems Cons.IH [of "max mx 1" mx' g 1 1]
      show ?thesis by simp
    qed
  next
    case xg: False
    show ?thesis
    proof (cases "x = prev")
      case True
      with xg Cons.prems Cons.IH [of mx "max mx' (cur' + 1)" prev 0 "cur' + 1"]
      show ?thesis by (simp add: max.coboundedI1)
    next
      case False
      with xg Cons.prems Cons.IH [of mx mx' x 0 1]
      show ?thesis by simp
    qed
  qed
qed

lemma count_max_consecutive_le_any:
  "count_max_consecutive xs g \<le> max_consecutive_any xs"
proof (cases xs)
  case Nil
  then show ?thesis by (simp add: count_max_consecutive_def max_consecutive_any_def)
next
  case (Cons x rest)
  show ?thesis
  proof (cases "x = g")
    case True
    with Cons count_max_consecutive_loops [of 1 1 g g 1 1 rest] show ?thesis
      by (simp add: count_max_consecutive_def max_consecutive_any_def)
  next
    case False
    with Cons count_max_consecutive_loops [of 0 1 x g 0 1 rest] show ?thesis
      by (simp add: count_max_consecutive_def max_consecutive_any_def)
  qed
qed

lemma window_replicate:
  assumes "take k (drop i xs) = g # w" "set w \<subseteq> {g}" "i + k \<le> length xs"
  shows "\<exists>as bs. xs = as @ replicate k g @ bs"
proof -
  have "length (take k (drop i xs)) = k" using assms(3) by simp
  then have len: "length (g # w) = k" using assms(1) by simp
  have "\<forall>y\<in>set (g # w). y = g" using assms(2) by auto
  then have "replicate (length (g # w)) g = g # w"
    by (rule replicate_length_same)
  then have "replicate k g = g # w" by (simp only: len)
  then have "take k (drop i xs) = replicate k g" by (simp only: assms(1))
  moreover have "xs = take i xs @ take k (drop i xs) @ drop k (drop i xs)"
    by (simp only: append_take_drop_id)
  ultimately have "xs = take i xs @ replicate k g @ drop k (drop i xs)" by simp
  then show ?thesis by blast
qed

subsection \<open>Appending to the translation\<close>

lemma get_ngrams_append:
  "\<exists>ext. get_ngrams (tt @ e) n = get_ngrams tt n @ ext"
proof -
  let ?L = "length tt + 1 - n" and ?L' = "length (tt @ e) + 1 - n"
  have le: "?L \<le> ?L'" by simp
  have "[0..<?L'] = [0..<?L] @ [?L..<?L']"
    using le by (metis le0 upt_add_eq_append le_add_diff_inverse)
  then have "get_ngrams (tt @ e) n =
      map (\<lambda>i. take n (drop i (tt @ e))) [0..<?L] @ map (\<lambda>i. take n (drop i (tt @ e))) [?L..<?L']"
    by (simp add: get_ngrams_def)
  moreover have "map (\<lambda>i. take n (drop i (tt @ e))) [0..<?L] = get_ngrams tt n"
    unfolding get_ngrams_def by (rule map_cong) auto
  ultimately show ?thesis by auto
qed

lemma window_flagged_append:
  assumes "window_flagged self tn m i" "i < length tn + 1 - min_repetitions self"
  shows "window_flagged self (tn @ ext) m i"
proof -
  from assms(2) have "i + min_repetitions self \<le> length tn" by simp
  then have same: "take (min_repetitions self) (drop i (tn @ ext)) = take (min_repetitions self) (drop i tn)"
    by simp
  from assms(1) obtain g w where win: "take (min_repetitions self) (drop i tn) = g # w"
    and uni: "set w \<subseteq> {g}"
    and c: "m < min_repetitions self \<or> count_max_consecutive tn g > m * 2"
    by (auto simp: window_flagged_def split: list.splits)
  from c have "m < min_repetitions self \<or> count_max_consecutive (tn @ ext) g > m * 2"
    using count_max_consecutive_append [of tn g ext] by linarith
  with uni show ?thesis unfolding window_flagged_def same win by simp
qed

lemma ngram_flagged_append:
  assumes "ngram_flagged self tt st n"
  shows "ngram_flagged self (tt @ e) st n"
proof -
  obtain ext where m: "get_ngrams (tt @ e) n = get_ngrams tt n @ ext"
    using get_ngrams_append by blast
  let ?tn = "get_ngrams tt n" and ?sn = "get_ngrams st n"
  from assms consider
    (freq) g where "g \<in> set ?tn" "count_list ?tn g \<ge> min_repetitions self"
        "real (count_list ?tn g) > real (max_source_freq ?sn) * 1.5"
  | (run) i where "i < length ?tn + 1 - min_repetitions self"
        "window_flagged self ?tn (max_consecutive_any ?sn) i"
    by (auto simp: ngram_flagged_def Let_def)
  then show ?thesis
  proof cases
    case freq
    then have "g \<in> set (?tn @ ext)" "count_list (?tn @ ext) g \<ge> min_repetitions self"
      "real (count_list (?tn @ ext) g) > real (max_source_freq ?sn) * 1.5"
      by auto
    then show ?thesis unfolding ngram_flagged_def Let_def m by blast
  next
    case run
    then have "i < length (?tn @ ext) + 1 - min_repetitions self"
      "window_flagged self (?tn @ ext) (max_consecutive_any ?sn) i"
      by (auto intro: window_flagged_append)
    then show ?thesis unfolding ngram_flagged_def Let_def m by auto
  qed
qed

lemma split_from_append:
  "sp c \<Longrightarrow> split_from sp cur (a @ c # b) = split_from sp cur a @ split_from sp [] b"
  by (induction a arbitrary: cur) auto

lemma tokenize_append_space:
  "isspace R 32 \<Longrightarrow> tokenize R (a @ 32 # b) = tokenize R a @ tokenize R b"
  by (simp add: tokenize_def str_split_def split_from_append)

lemma ngram_sizes_mono:
  "set (ngram_sizes self k) \<subseteq> set (ngram_sizes self (k + j))"
  by (auto simp: ngram_sizes_def)

lemma detect_true_iff:
  "detect R self s t = Inr True \<longleftrightarrow>
     (elongation_sum R (finditer (str_lower R t)) > 40 \<and>
      elongation_sum R (finditer (str_lower R t)) > elongation_sum R (finditer (str_lower R s)) * 3) \<or>
     (\<exists>n\<in>set (ngram_sizes self (length (tokenize R t))).
        ngram_flagged self (tokenize R t) (tokenize R s) n)"
  by (auto simp: detect_eq has_excessive_elongation_Inr has_phrase_repetition_Inr)

lemma detect_append_suffix:
  assumes sp: "isspace R 32" and lo: "lower_splits_at_space R"
    and fl: "detect R self s t = Inr True"
  shows "detect R self s (t @ 32 # x) = Inr True"
proof -
  let ?t' = "t @ 32 # x"
  have low: "str_lower R ?t' = str_lower R t @ 32 # str_lower R x"
    using lo by (simp add: lower_splits_at_space_def)
  have tok: "tokenize R ?t' = tokenize R t @ tokenize R x"
    using sp by (rule tokenize_append_space)
  from fl consider
    (elong) "elongation_sum R (finditer (str_lower R t)) > 40"
      "elongation_sum R (finditer (str_lower R t)) > elongation_sum R (finditer (str_lower R s)) * 3"
  | (phrase) n where "n \<in> set (ngram_sizes self (length (tokenize R t)))"
      "ngram_flagged self (tokenize R t) (tokenize R s) n"
    by (auto simp: detect_true_iff)
  then show ?thesis
  proof cases
    case elong
    have "elongation_sum R (finditer (str_lower R t)) \<le> elongation_sum R (finditer (str_lower R ?t'))"
      unfolding low by (rule elongation_sum_append)
    with elong show ?thesis unfolding detect_true_iff by linarith
  next
    case phrase
    have "n \<in> set (ngram_sizes self (length (tokenize R ?t')))"
      using phrase(1) ngram_sizes_mono [of self "length (tokenize R t)" "length (tokenize R x)"]
      by (auto simp: tok)
    moreover have "ngram_flagged self (tokenize R ?t') (tokenize R s) n"
      unfolding tok using phrase(2) by (rule ngram_flagged_append)
    ultimately show ?thesis unfolding detect_true_iff by blast
  qed
qed

subsection \<open>A text against itself\<close>

lemma count_le_max_source_freq:
  "g \<in> set xs \<Longrightarrow> count_list xs g \<le> max_source_freq xs"
  by (auto simp: max_source_freq_def)

lemma window_flagged_same:
  assumes "i < length tn + 1 - min_repetitions self"
  shows "\<not> window_flagged self tn (max_consecutive_any tn) i"
proof
  assume "window_flagged self tn (max_consecutive_any tn) i"
  then obtain g w where win: "take (min_repetitions self) (drop i tn) = g # w"
    and uni: "set w \<subseteq> {g}"
    and c: "max_consecutive_any tn < min_repetitions self \<or>
            count_max_consecutive tn g > max_consecutive_any tn * 2"
    by (auto simp: window_flagged_def split: list.splits)
  from assms have "i + min_repetitions self \<le> length tn" by simp
  from window_replicate [OF win uni this] obtain as bs
    where "tn = as @ replicate (min_repetitions self) g @ bs" by blast
  then have "min_repetitions self \<le> count_max_consecutive tn g"
    using count_max_consecutive_window [of "min_repetitions self" as g bs] by simp
  with c count_max_consecutive_le_any [of tn g] show False by linarith
qed

lemma ngram_flagged_same: "\<not> ngram_flagged self tt tt n"
proof -
  have "\<not> real (count_list (get_ngrams tt n) g) > real (max_source_freq (get_ngrams tt n)) * 1.5"
    if "g \<in> set (get_ngrams tt n)" for g
    using count_le_max_source_freq [OF that] by simp
  then show ?thesis
    using window_flagged_same [of _ "get_ngrams tt n" self]
    by (auto simp: ngram_flagged_def Let_def)
qed

subsection \<open>ASCII text\<close>

lemma is_ascii_iff: "is_ascii s \<longleftrightarrow> (\<forall>c\<in>set s. c < 128)"
  by (simp add: is_ascii_def list_all_iff)

lemma ascii_upper_lt: "c < 128 \<Longrightarrow> ascii_upper c < 128"
  by (auto simp: ascii_upper_def)

lemma ascii_lower_upper: "ascii_lower (ascii_upper c) = ascii_lower c"
  by (auto simp: ascii_lower_def ascii_upper_def)

lemma ascii_isspace_upper: "ascii_isspace (ascii_upper c) = ascii_isspace c"
  by (auto simp: ascii_isspace_def ascii_upper_def)

lemma is_ascii_upper: "is_ascii s \<Longrightarrow> is_ascii (map ascii_upper s)"
  by (auto simp: is_ascii_iff ascii_upper_lt)

lemma agrees_lower: "agrees_on_ascii R \<Longrightarrow> is_ascii s \<Longrightarrow> str_lower R s = map ascii_lower s"
  by (simp add: agrees_on_ascii_def)

lemma agrees_upper: "agrees_on_ascii R \<Longrightarrow> is_ascii s \<Longrightarrow> str_upper R s = map ascii_upper s"
  by (simp add: agrees_on_ascii_def)

lemma agrees_isspace: "agrees_on_ascii R \<Longrightarrow> c < 128 \<Longrightarrow> isspace R c = ascii_isspace c"
  by (simp add: agrees_on_ascii_def)

lemma agrees_isalnum: "agrees_on_ascii R \<Longrightarrow> c < 128 \<Longrightarrow> isalnum R c = ascii_isalnum c"
  by (simp add: agrees_on_ascii_def)

lemma agrees_basic_db: "agrees_on_ascii basic_db"
proof -
  have "concat (map basic_upper s) = map ascii_upper s" if "is_ascii s" for s
    using that by (induction s) (auto simp: is_ascii_def basic_upper_def)
  then show ?thesis
    by (auto simp: agrees_on_ascii_def basic_db_def)
qed

lemma lower_splits_basic_db: "lower_splits_at_space basic_db"
  by (simp add: lower_splits_at_space_def basic_db_def ascii_lower_def)

lemma lower_upper_ascii:
  assumes "agrees_on_ascii R" "is_ascii s"
  shows "str_lower R (str_upper R s) = str_lower R s"
proof -
  have "str_lower R (str_upper R s) = map ascii_lower (map ascii_upper s)"
    using assms by (simp add: agrees_upper agrees_lower is_ascii_upper)
  also have "\<dots> = map ascii_lower s" by (simp add: ascii_lower_upper)
  finally show ?thesis using assms by (simp add: agrees_lower)
qed

lemma split_from_map:
  "\<forall>c\<in>set s. sp' (f c) = sp c \<Longrightarrow>
     split_from sp' (map f cur) (map f s) = map (map f) (split_from sp cur s)"
proof (induction s arbitrary: cur)
  case Nil
  show ?case by simp
next
  case (Cons c s)
  from Cons.prems have c: "sp' (f c) = sp c" and rest: "\<forall>c\<in>set s. sp' (f c) = sp c" by simp_all
  from Cons.IH [OF rest, of "[]"] Cons.IH [OF rest, of "cur @ [c]"] c show ?case by simp
qed

lemma split_from_subset: "t \<in> set (split_from sp cur s) \<Longrightarrow> set t \<subseteq> set cur \<union> set s"
proof (induction s arbitrary: cur)
  case Nil
  then show ?case by (simp split: if_splits)
next
  case (Cons c s)
  show ?case
  proof (cases "sp c")
    case True
    with Cons.prems Cons.IH [of "[]"] show ?thesis by (auto split: if_splits)
  next
    case False
    with Cons.prems Cons.IH [of "cur @ [c]"] show ?thesis by auto
  qed
qed

lemma str_split_ascii: "is_ascii s \<Longrightarrow> t \<in> set (str_split R s) \<Longrightarrow> is_ascii t"
  using split_from_subset [of t "isspace R" "[]" s] by (auto simp: str_split_def is_ascii_iff)

lemma str_split_upper:
  assumes "agrees_on_ascii R" "is_ascii s"
  shows "str_split R (map ascii_upper s) = map (map ascii_upper) (str_split R s)"
proof -
  have "\<forall>c\<in>set s. isspace R (ascii_upper c) = isspace R c"
    using assms by (auto simp: is_ascii_iff agrees_isspace ascii_upper_lt ascii_isspace_upper)
  from split_from_map [of s "isspace R" ascii_upper "isspace R" "[]", OF this]
  show ?thesis by (simp add: str_split_def)
qed

lemma tokenize_upper_ascii:
  assumes "agrees_on_ascii R" "is_ascii s"
  shows "tokenize R (str_upper R s) = tokenize R s"
proof -
  have "tokenize R (str_upper R s) =
      map (str_lower R) (filter (\<lambda>t. t \<noteq> []) (map (map ascii_upper) (str_split R s)))"
    using assms by (simp add: tokenize_def agrees_upper str_split_upper)
  also have "\<dots> = map (\<lambda>t. str_lower R (map ascii_upper t)) (filter (\<lambda>t. t \<noteq> []) (str_split R s))"
    by (simp add: filter_map comp_def)
  also have "\<dots> = map (str_lower R) (filter (\<lambda>t. t \<noteq> []) (str_split R s))"
  proof (rule map_cong [OF refl])
    fix t assume "t \<in> set (filter (\<lambda>t. t \<noteq> []) (str_split R s))"
    then have "is_ascii t" using assms(2) by (auto intro: str_split_ascii)
    then show "str_lower R (map ascii_upper t) = str_lower R t"
      using lower_upper_ascii [OF assms(1), of t] assms(1) by (simp add: agrees_upper)
  qed
  finally show ?thesis by (simp add: tokenize_def)
qed

lemma detect_cong:
  assumes "str_lower R s = str_lower R s'" "tokenize R s = tokenize R s'"
    and "str_lower R t = str_lower R t'" "tokenize R t = tokenize R t'"
  shows "detect R self s t = detect R self s' t'"
  using assms
  by (simp add: detect_eq has_excessive_elongation_Inr has_phrase_repetition_Inr)

lemma survives_ascii:
  "agrees_on_ascii R \<Longrightarrow> is_ascii s \<Longrightarrow> survives_uppercasing R s"
  by (simp add: survives_uppercasing_def lower_upper_ascii tokenize_upper_ascii)

subsection \<open>Latin-1 text\<close>

lemma restored_latin1_iff:
  "restored_latin1 s \<longleftrightarrow> (\<forall>c\<in>set s. c < 256 \<and> c \<noteq> 181 \<and> c \<noteq> 223)"
  by (simp add: restored_latin1_def list_all_iff)

lemma latin1_upper_single: "c \<noteq> 223 \<Longrightarrow> latin1_upper c = [latin1_upper1 c]"
  by (simp add: latin1_upper_def latin1_upper1_def)

lemma latin1_str_upper:
  "restored_latin1 s \<Longrightarrow> str_upper latin1_db s = map latin1_upper1 s"
  by (induction s) (simp_all add: restored_latin1_def latin1_db_def latin1_upper_single)

lemma latin1_lower_upper1:
  "c < 256 \<Longrightarrow> c \<noteq> 181 \<Longrightarrow> latin1_lower (latin1_upper1 c) = latin1_lower c"
  by (auto simp: latin1_lower_def latin1_upper1_def)

lemma latin1_isspace_upper1:
  "c < 256 \<Longrightarrow> latin1_isspace (latin1_upper1 c) = latin1_isspace c"
  by (auto simp: latin1_isspace_def ascii_isspace_def latin1_upper1_def)

lemma latin1_lower_upper:
  assumes "restored_latin1 s"
  shows "str_lower latin1_db (str_upper latin1_db s) = str_lower latin1_db s"
proof -
  have "map latin1_lower (map latin1_upper1 s) = map latin1_lower s"
    using assms by (simp add: restored_latin1_iff latin1_lower_upper1)
  then show ?thesis using assms by (simp add: latin1_str_upper) (simp add: latin1_db_def)
qed

lemma latin1_split_restored:
  "restored_latin1 s \<Longrightarrow> t \<in> set (str_split R s) \<Longrightarrow> restored_latin1 t"
  using split_from_subset [of t "isspace R" "[]" s]
  by (auto simp: str_split_def restored_latin1_iff)

lemma latin1_tokenize_upper:
  assumes "restored_latin1 s"
  shows "tokenize latin1_db (str_upper latin1_db s) = tokenize latin1_db s"
proof -
  have "\<forall>c\<in>set s. isspace latin1_db (latin1_upper1 c) = isspace latin1_db c"
    using assms by (auto simp: restored_latin1_iff latin1_db_def latin1_isspace_upper1)
  from split_from_map [of s "isspace latin1_db" latin1_upper1 "isspace latin1_db" "[]", OF this]
  have sp: "str_split latin1_db (map latin1_upper1 s) =
      map (map latin1_upper1) (str_split latin1_db s)"
    by (simp add: str_split_def)
  have "tokenize latin1_db (str_upper latin1_db s) =
      map (str_lower latin1_db)
        (filter (\<lambda>t. t \<noteq> []) (map (map latin1_upper1) (str_split latin1_db s)))"
    using assms by (simp add: tokenize_def latin1_str_upper sp)
  also have "\<dots> = map (\<lambda>t. str_lower latin1_db (map latin1_upper1 t))
      (filter (\<lambda>t. t \<noteq> []) (str_split latin1_db s))"
    by (simp add: filter_map comp_def)
  also have "\<dots> = map (str_lower latin1_db) (filter (\<lambda>t. t \<noteq> []) (str_split latin1_db s))"
  proof (rule map_cong [OF refl])
    fix t assume "t \<in> set (filter (\<lambda>t. t \<noteq> []) (str_split latin1_db s))"
    then have r: "restored_latin1 t" using assms by (auto intro: latin1_split_restored)
    from latin1_lower_upper [OF r] r
    show "str_lower latin1_db (map latin1_upper1 t) = str_lower latin1_db t"
      by (simp add: latin1_str_upper)
  qed
  finally show ?thesis by (simp add: tokenize_def)
qed

lemma survives_latin1: "restored_latin1 s \<Longrightarrow> survives_uppercasing latin1_db s"
  by (simp add: survives_uppercasing_def latin1_lower_upper latin1_tokenize_upper)

subsection \<open>The frequency rule and the collapsed detector\<close>

lemma frequency_loop_collapsed_eq:
  "frequency_loop_collapsed self m items = frequency_loop self n m items"
  by (induction self n m items rule: frequency_loop.induct) auto

lemma has_ngram_repetition_collapsed_eq:
  "has_ngram_repetition_collapsed self tt st n = has_ngram_repetition self tt st n"
  by (simp add: has_ngram_repetition_collapsed_def has_ngram_repetition_def Let_def
      max_source_repetition_of_Counter frequency_loop_collapsed_eq [of self _ _ n])

lemma phrase_loop_collapsed_eq:
  "phrase_loop_collapsed self tt st ns = phrase_loop self tt st ns"
  by (induction ns) (simp_all add: has_ngram_repetition_collapsed_eq has_ngram_repetition_Inr)

lemma detect_collapsed_eq: "detect_collapsed R self s t = detect R self s t"
  by (auto simp: detect_collapsed_def detect_eq has_excessive_elongation_Inr
      has_phrase_repetition_def Let_def phrase_loop_collapsed_eq)

lemma ngram_flagged_frequency:
  "frequency_rule (get_ngrams tt n) (get_ngrams st n) \<Longrightarrow> ngram_flagged default_detector tt st n"
  by (auto simp: frequency_rule_def ngram_flagged_def Let_def default_detector_def)

lemma frequency_loop_rule:
  "frequency_loop default_detector n (max_source_freq sn) (Counter tn) \<longleftrightarrow> frequency_rule tn sn"
  by (simp add: frequency_loop_Counter frequency_rule_def default_detector_def)

subsection \<open>The run-length loops compute the longest runs\<close>

lemma runs_replicate:
  "ys = [] \<or> hd ys \<noteq> g \<Longrightarrow> runs (replicate (Suc k) g @ ys) = replicate (Suc k) g # runs ys"
proof -
  assume a: "ys = [] \<or> hd ys \<noteq> g"
  then have tw: "takeWhile (\<lambda>y. y = g) ys = []" and dw: "dropWhile (\<lambda>y. y = g) ys = ys"
    by (cases ys; auto)+
  have "takeWhile (\<lambda>y. y = g) (replicate k g @ ys) = replicate k g"
    and "dropWhile (\<lambda>y. y = g) (replicate k g @ ys) = ys"
    using tw dw by (simp_all add: takeWhile_append dropWhile_append)
  then show ?thesis by simp
qed

lemma runs_replicate_hd:
  "\<exists>r rs. runs (replicate (Suc k) g @ ys) = r # rs \<and> hd r = g \<and> Suc k \<le> length r"
proof -
  have "takeWhile (\<lambda>y. y = g) (replicate k g @ ys) = replicate k g @ takeWhile (\<lambda>y. y = g) ys"
    by (simp add: takeWhile_append)
  then show ?thesis by simp
qed

lemma longest_run_replicate_ge: "k \<le> longest_run (replicate k g @ ys)"
proof (cases k)
  case 0
  then show ?thesis by simp
next
  case (Suc j)
  from runs_replicate_hd [of j g ys] obtain r rs
    where "runs (replicate (Suc j) g @ ys) = r # rs" "Suc j \<le> length r" by blast
  with Suc show ?thesis by (simp add: longest_run_def)
qed

lemma longest_run_of_replicate_ge: "k \<le> longest_run_of g (replicate k g @ ys)"
proof (cases k)
  case 0
  then show ?thesis by simp
next
  case (Suc j)
  from runs_replicate_hd [of j g ys] obtain r rs
    where "runs (replicate (Suc j) g @ ys) = r # rs" "hd r = g" "Suc j \<le> length r" by blast
  with Suc show ?thesis by (simp add: longest_run_of_def)
qed

lemma count_max_consecutive_any_loop_runs:
  "1 \<le> cur \<Longrightarrow> cur \<le> mx \<Longrightarrow>
     count_max_consecutive_any_loop mx cur prev xs = max mx (longest_run (replicate cur prev @ xs))"
proof (induction xs arbitrary: mx cur prev)
  case Nil
  then obtain j where "cur = Suc j" by (cases cur) auto
  with Nil runs_replicate [of "[]" prev j] show ?case by (simp add: longest_run_def)
next
  case (Cons x xs)
  show ?case
  proof (cases "x = prev")
    case True
    define L where "L = longest_run (replicate (Suc cur) prev @ xs)"
    have eq: "replicate cur prev @ x # xs = replicate (Suc cur) prev @ xs"
      using True by (simp add: replicate_app_Cons_same)
    have ge: "Suc cur \<le> L"
      unfolding L_def by (rule longest_run_replicate_ge)
    have "count_max_consecutive_any_loop (max mx (Suc cur)) (Suc cur) prev xs =
        max (max mx (Suc cur)) L"
      unfolding L_def by (rule Cons.IH) simp_all
    then have "count_max_consecutive_any_loop mx cur prev (x # xs) = max mx L"
      using True ge by (simp add: max_def)
    then show ?thesis unfolding eq L_def .
  next
    case False
    from Cons.prems obtain j where j: "cur = Suc j" by (cases cur) auto
    have "runs (replicate cur prev @ x # xs) = replicate cur prev # runs (x # xs)"
      unfolding j using False by (intro runs_replicate) simp
    then have "longest_run (replicate cur prev @ x # xs) = max cur (longest_run (x # xs))"
      by (simp add: longest_run_def)
    with False Cons.prems Cons.IH [of 1 mx x] show ?thesis by (simp add: max_def)
  qed
qed

lemma max_consecutive_any_longest_run: "max_consecutive_any xs = longest_run xs"
proof (cases xs)
  case Nil
  then show ?thesis by (simp add: max_consecutive_any_def longest_run_def)
next
  case (Cons x rest)
  have "1 \<le> longest_run (replicate 1 x @ rest)" by (rule longest_run_replicate_ge)
  with Cons count_max_consecutive_any_loop_runs [of 1 1 x rest] show ?thesis
    by (simp add: max_consecutive_any_def max_def)
qed

lemma longest_run_of_skip: "x \<noteq> g \<Longrightarrow> longest_run_of g (x # xs) = longest_run_of g xs"
proof -
  assume ne: "x \<noteq> g"
  let ?tw = "takeWhile (\<lambda>y. y = x) xs" and ?dw = "dropWhile (\<lambda>y. y = x) xs"
  have hd_tw: "?tw \<noteq> [] \<Longrightarrow> hd ?tw = x" by (cases xs) (auto split: if_splits)
  have "longest_run_of g (x # xs) = longest_run_of g ?dw"
    using ne by (simp add: longest_run_of_def)
  moreover have "longest_run_of g xs = longest_run_of g ?dw"
    unfolding longest_run_of_def using ne hd_tw by (subst runs_skip [of xs x]) auto
  ultimately show ?thesis by simp
qed

lemma count_max_consecutive_loop_runs:
  "cur \<le> mx \<Longrightarrow>
     count_max_consecutive_loop g mx cur xs = max mx (longest_run_of g (replicate cur g @ xs))"
proof (induction xs arbitrary: mx cur)
  case Nil
  show ?case
  proof (cases cur)
    case 0
    then show ?thesis by (simp add: longest_run_of_def)
  next
    case (Suc j)
    with Nil runs_replicate [of "[]" g j] show ?thesis by (simp add: longest_run_of_def)
  qed
next
  case (Cons x xs)
  show ?case
  proof (cases "x = g")
    case True
    define L where "L = longest_run_of g (replicate (Suc cur) g @ xs)"
    have eq: "replicate cur g @ x # xs = replicate (Suc cur) g @ xs"
      using True by (simp add: replicate_app_Cons_same)
    have ge: "Suc cur \<le> L"
      unfolding L_def by (rule longest_run_of_replicate_ge)
    have "count_max_consecutive_loop g (max mx (Suc cur)) (Suc cur) xs = max (max mx (Suc cur)) L"
      unfolding L_def by (rule Cons.IH) simp
    then have "count_max_consecutive_loop g mx cur (x # xs) = max mx L"
      using True ge by (simp add: max_def)
    then show ?thesis unfolding eq L_def .
  next
    case False
    have "longest_run_of g (replicate cur g @ x # xs) = max cur (longest_run_of g xs)"
    proof (cases cur)
      case 0
      with False show ?thesis by (simp add: longest_run_of_skip)
    next
      case (Suc j)
      have "runs (replicate cur g @ x # xs) = replicate cur g # runs (x # xs)"
        unfolding Suc using False by (intro runs_replicate) simp
      then have "longest_run_of g (replicate cur g @ x # xs) = max cur (longest_run_of g (x # xs))"
        unfolding longest_run_of_def Suc by simp
      with False show ?thesis by (simp add: longest_run_of_skip)
    qed
    with False Cons.prems Cons.IH [of 0 mx] show ?thesis by (simp add: max_def)
  qed
qed

lemma count_max_consecutive_longest_run_of:
  "count_max_consecutive xs g = longest_run_of g xs"
  using count_max_consecutive_loop_runs [of 0 0 g xs] by (simp add: count_max_consecutive_def)

subsection \<open>The windows of the second loop\<close>

lemma window3_iff:
  assumes "i + 3 \<le> length tn"
  shows "(\<exists>w. take 3 (drop i tn) = g # w \<and> set w \<subseteq> {g}) \<longleftrightarrow> take 3 (drop i tn) = [g, g, g]"
proof
  assume "\<exists>w. take 3 (drop i tn) = g # w \<and> set w \<subseteq> {g}"
  then obtain w where w: "take 3 (drop i tn) = g # w" "set w \<subseteq> {g}" by blast
  have "length (take 3 (drop i tn)) = 3" using assms by simp
  with w(1) have "length w = 2" by simp
  then obtain a b where "w = [a, b]"
    by (cases w; cases "tl w"; auto)
  with w show "take 3 (drop i tn) = [g, g, g]" by simp
next
  assume "take 3 (drop i tn) = [g, g, g]"
  then show "\<exists>w. take 3 (drop i tn) = g # w \<and> set w \<subseteq> {g}" by simp
qed

lemma uniform_window_iff:
  "uniform_window tn g \<longleftrightarrow> (\<exists>i. i + 3 \<le> length tn \<and> take 3 (drop i tn) = [g, g, g])"
proof
  assume "uniform_window tn g"
  then obtain i where i: "take 3 (drop i tn) = [g, g, g]" by (auto simp: uniform_window_def)
  then have "length (take 3 (drop i tn)) = 3" by simp
  then have "i + 3 \<le> length tn" by simp
  with i show "\<exists>i. i + 3 \<le> length tn \<and> take 3 (drop i tn) = [g, g, g]" by blast
next
  assume "\<exists>i. i + 3 \<le> length tn \<and> take 3 (drop i tn) = [g, g, g]"
  then show "uniform_window tn g" by (auto simp: uniform_window_def)
qed

lemma window_flagged_default:
  assumes "i + 3 \<le> length tn"
  shows "window_flagged default_detector tn m i \<longleftrightarrow>
    (\<exists>g. take 3 (drop i tn) = [g, g, g] \<and> (m < 3 \<or> count_max_consecutive tn g > m * 2))"
proof -
  have "window_flagged default_detector tn m i \<longleftrightarrow>
      (\<exists>g w. take 3 (drop i tn) = g # w \<and> set w \<subseteq> {g} \<and>
             (m < 3 \<or> count_max_consecutive tn g > m * 2))"
    by (auto simp: window_flagged_def default_detector_def split: list.splits)
  also have "\<dots> \<longleftrightarrow> (\<exists>g. (\<exists>w. take 3 (drop i tn) = g # w \<and> set w \<subseteq> {g}) \<and>
             (m < 3 \<or> count_max_consecutive tn g > m * 2))"
    by blast
  finally show ?thesis by (simp only: window3_iff [OF assms])
qed

lemma consecutive_check_eq:
  "consecutive_loop default_detector tn sn [0 ..< length tn + 1 - 3] =
     Inr (\<exists>g. uniform_window tn g \<and>
               (longest_run sn < 3 \<or> longest_run_of g tn > longest_run sn * 2))"
proof -
  let ?m = "max_consecutive_any sn"
  have "(\<exists>i\<in>set [0 ..< length tn + 1 - 3]. window_flagged default_detector tn ?m i) \<longleftrightarrow>
        (\<exists>i. i + 3 \<le> length tn \<and> window_flagged default_detector tn ?m i)"
  proof -
    have "i \<in> set [0 ..< length tn + 1 - 3] \<longleftrightarrow> i + 3 \<le> length tn" for i by auto
    then show ?thesis by blast
  qed
  also have "\<dots> \<longleftrightarrow> (\<exists>i. i + 3 \<le> length tn \<and>
      (\<exists>g. take 3 (drop i tn) = [g, g, g] \<and> (?m < 3 \<or> count_max_consecutive tn g > ?m * 2)))"
    using window_flagged_default [of _ tn ?m] by blast
  also have "\<dots> \<longleftrightarrow> (\<exists>g. uniform_window tn g \<and> (?m < 3 \<or> count_max_consecutive tn g > ?m * 2))"
    unfolding uniform_window_iff by blast
  finally show ?thesis
    by (simp add: consecutive_loop_Inr max_consecutive_any_longest_run
        count_max_consecutive_longest_run_of)
qed

lemma ngram_flagged_consecutive:
  "consecutive_loop default_detector (get_ngrams tt n) (get_ngrams st n)
      [0 ..< length (get_ngrams tt n) + 1 - 3] = Inr True \<Longrightarrow>
   ngram_flagged default_detector tt st n"
  by (simp add: consecutive_loop_Inr ngram_flagged_def Let_def default_detector_def)

subsection \<open>Databases that agree on ASCII text\<close>

lemma split_from_cong:
  "\<forall>c\<in>set s. sp c = sp' c \<Longrightarrow> split_from sp cur s = split_from sp' cur s"
  by (induction s arbitrary: cur) auto

lemma tokenize_agrees:
  assumes "agrees_on_ascii R" "is_ascii s"
  shows "tokenize R s = tokenize basic_db s"
proof -
  have "\<forall>c\<in>set s. isspace R c = ascii_isspace c"
    using assms by (auto simp: is_ascii_iff agrees_isspace)
  then have sp: "str_split R s = str_split basic_db s"
    by (simp add: str_split_def basic_db_def split_from_cong)
  have "map (str_lower R) (filter (\<lambda>t. t \<noteq> []) (str_split basic_db s)) =
        map (str_lower basic_db) (filter (\<lambda>t. t \<noteq> []) (str_split basic_db s))"
  proof (rule map_cong [OF refl])
    fix t assume "t \<in> set (filter (\<lambda>t. t \<noteq> []) (str_split basic_db s))"
    then have "is_ascii t" using assms(2) by (auto intro: str_split_ascii)
    then show "str_lower R t = str_lower basic_db t"
      using assms(1) agrees_basic_db by (simp add: agrees_lower)
  qed
  then show ?thesis by (simp add: tokenize_def sp)
qed

lemma finditer_subset: "m \<in> set (finditer s) \<Longrightarrow> set m \<subseteq> set s"
proof (induction s rule: finditer.induct)
  case 1
  then show ?case by simp
next
  case (2 c cs)
  show ?case
  proof (cases "c \<noteq> newline \<and> length (takeWhile (\<lambda>x. x = c) cs) \<ge> 2")
    case True
    with "2.prems" "2.IH"(1) [OF refl True] show ?thesis
      by (auto simp: Let_def dest: set_takeWhileD set_dropWhileD)
  next
    case False
    with "2.prems" "2.IH"(2) [OF refl False] show ?thesis
      by (auto simp: Let_def)
  qed
qed

lemma elongation_sum_agrees:
  assumes "agrees_on_ascii R" "is_ascii s"
  shows "elongation_sum R (finditer s) = elongation_sum basic_db (finditer s)"
proof -
  have "(case m of [] \<Rightarrow> False | c # _ \<Rightarrow> isalnum R c) =
        (case m of [] \<Rightarrow> False | c # _ \<Rightarrow> isalnum basic_db c)"
    if "m \<in> set (finditer s)" for m
  proof (cases m)
    case Nil
    then show ?thesis by simp
  next
    case (Cons c w)
    with finditer_subset [OF that] assms(2) have "c < 128" by (auto simp: is_ascii_iff)
    with Cons assms(1) agrees_basic_db show ?thesis by (simp add: agrees_isalnum)
  qed
  then have "filter (\<lambda>m. case m of [] \<Rightarrow> False | c # _ \<Rightarrow> isalnum R c) (finditer s) =
             filter (\<lambda>m. case m of [] \<Rightarrow> False | c # _ \<Rightarrow> isalnum basic_db c) (finditer s)"
    by (intro filter_cong) auto
  then show ?thesis by (simp add: elongation_sum_def)
qed

lemma ascii_lower_lt: "c < 128 \<Longrightarrow> ascii_lower c < 128"
  by (auto simp: ascii_lower_def)

lemma detect_agrees:
  assumes "agrees_on_ascii R" "is_ascii s" "is_ascii t"
  shows "detect R self s t = detect basic_db self s t"
proof -
  have lo: "str_lower R x = str_lower basic_db x \<and> is_ascii (str_lower basic_db x)" if "is_ascii x" for x
    using that assms(1) agrees_basic_db
    by (auto simp: agrees_lower is_ascii_iff ascii_lower_lt)
  have "elongation_sum R (finditer (str_lower R x)) =
        elongation_sum basic_db (finditer (str_lower basic_db x))" if "is_ascii x" for x
    using lo [OF that] elongation_sum_agrees [OF assms(1), of "str_lower basic_db x"] by simp
  with assms show ?thesis
    by (simp add: detect_eq has_excessive_elongation_Inr has_phrase_repetition_Inr tokenize_agrees)
qed

lemma ciao_bye_ascii: "is_ascii ciao_source \<and> is_ascii bye_translated"
  by code_simp

lemma ciao_bye_basic:
  "detect_stammering basic_db ciao_source bye_translated = Inr False \<and>
   count_list (get_ngrams (tokenize basic_db bye_translated) 1) [str ''bye''] = 4 \<and>
   max_source_freq (get_ngrams (tokenize basic_db ciao_source) 1) = 4 \<and>
   longest_run_of [str ''bye''] (get_ngrams (tokenize basic_db bye_translated) 1) = 4 \<and>
   longest_run (get_ngrams (tokenize basic_db ciao_source) 1) = 4 \<and>
   \<not> frequency_rule (get_ngrams (tokenize basic_db bye_translated) 1)
       (get_ngrams (tokenize basic_db ciao_source) 1) \<and>
   consecutive_loop default_detector (get_ngrams (tokenize basic_db bye_translated) 1)
     (get_ngrams (tokenize basic_db ciao_source) 1)
     [0 ..< length (get_ngrams (tokenize basic_db bye_translated) 1) + 1 - 3] = Inr False"
  by code_simp

subsection \<open>The cases of the test file\<close>

text \<open>
  The cases of \<^verbatim>\<open>tests/test_stammering_cases.py\<close> that are written in ASCII without
  an apostrophe, with the results the test expects.
\<close>

lemma test_stammering_cases:
  "detect_stammering basic_db (str ''Vorrei comprare un biglietto'')
     (str ''I would like to buy a ticket'') = Inr False \<and>
   detect_stammering basic_db (str ''Amo la musica'')
     (str ''I love music'') = Inr False \<and>
   detect_stammering basic_db (str ''Dove si trova la stazione?'')
     (str ''Where is the station station station station?'') = Inr True \<and>
   detect_stammering basic_db (str ''Sono molto molto molto molto felice'')
     (str ''I am very happy'') = Inr False \<and>
   detect_stammering basic_db (str ''Posso aiutarti?'')
     (str ''Can I help you??'') = Inr False \<and>
   detect_stammering basic_db (str ''ciao'')
     (str ''bye bye'') = Inr False \<and>
   detect_stammering basic_db (str ''ciao ciao ciao ciao'')
     (str ''bye bye bye bye'') = Inr False \<and>
   detect_stammering basic_db (str ''ciao ciao'')
     (str ''bye bye bye bye bye bye bye bye bye bye bye'') = Inr True \<and>
   detect_stammering basic_db (str ''Mi piace moooooooolto il cibo italiano'')
     (str ''I like Italian food soooooooooooooooooooooooooooooooooooooooooooooooooooooooooooooooooooooooooooooooooooooooooooooooooooooooooooooooooooooooooooooooooooooooooooooooooooooo'') = Inr True"
  by code_simp

text \<open>
  The other three cases, with the Latin-1 database.
\<close>

lemma latin1_test_cases:
  "detect_stammering latin1_db (str ''Sono affamato'') (str ''I'' @ [39] @ str ''m hungry'') = Inr False \<and>
   detect_stammering latin1_db cosi_source tired_translated = Inr False \<and>
   detect_stammering latin1_db questo_source really_translated = Inr True"
  by code_simp

section \<open>The claims\<close>

text \<open>
  C1. \<open>detect\<close> returns true exactly when the elongation check fires or the
  per-size repetition check fires for one of the n-gram sizes of the loop. The
  elongation check is called first; when it returns true it is the only check called
  and the n-gram loop is not entered.
\<close>

theorem detect_decision:
  "(detect_stammering R source translated = Inr True \<longleftrightarrow>
      has_excessive_elongation R default_detector translated source = Inr True \<or>
      (\<exists>n\<in>set (ngram_sizes default_detector (length (tokenize R translated))).
         has_ngram_repetition default_detector (tokenize R translated) (tokenize R source) n = Inr True)) \<and>
   detect_stammering R source translated = fst (detect_run R default_detector source translated) \<and>
   snd (detect_run R default_detector source translated) =
     (if has_excessive_elongation R default_detector translated source = Inr True
      then [ElongationCheck] else [ElongationCheck, PhraseRepetitionCheck])"
  by (auto simp: detect_stammering_eq detect_def detect_run_eq has_excessive_elongation_Inr
      has_phrase_repetition_Inr has_ngram_repetition_Inr)

theorem detect_decision_witness:
  "has_excessive_elongation basic_db default_detector (replicate 41 111) (str ''x'') = Inr True \<and>
   detect_stammering basic_db (str ''x'') (replicate 41 111) = Inr True \<and>
   snd (detect_run basic_db default_detector (str ''x'') (replicate 41 111)) = [ElongationCheck]"
proof -
  have e: "has_excessive_elongation basic_db default_detector (replicate 41 111) (str ''x'') = Inr True"
    by code_simp
  with detect_decision [where R = basic_db and source = "str ''x''"
      and translated = "replicate 41 111"]
  show ?thesis by simp
qed

text \<open>
  C2. For every pair of texts and every n-gram size \<open>n\<close>, the frequency loop
  returns true exactly when some translated n-gram occurs \<open>c \<ge> 3\<close> times with
  \<open>c > max_source_freq * 1.5\<close>, where \<open>max_source_freq\<close> is the largest number of
  occurrences of a source n-gram of that size (\<open>0\<close> when there is none); when it
  does at a size the loop examines, \<open>detect\<close> returns true. The loop does the same
  for \<open>n = 1\<close> and for \<open>n > 1\<close>, and the detector with the two branches
  collapsed into one rule returns what the detector returns.
\<close>

theorem frequency_check_rule:
  "(let tt = tokenize R translated; st = tokenize R source;
        tn = get_ngrams tt n; sn = get_ngrams st n
    in max_source_repetition_of (Counter sn) = Inr (max_source_freq sn) \<and>
       (frequency_loop default_detector n (max_source_freq sn) (Counter tn) \<longleftrightarrow>
          frequency_rule tn sn) \<and>
       (frequency_rule tn sn \<longrightarrow> has_ngram_repetition default_detector tt st n = Inr True) \<and>
       (frequency_rule tn sn \<and> n \<in> set (ngram_sizes default_detector (length tt)) \<longrightarrow>
          detect_stammering R source translated = Inr True)) \<and>
   (\<forall>self m items.
      frequency_loop self n m (items :: ('a \<times> nat) list) = frequency_loop self 1 m items) \<and>
   (\<forall>self. detect_collapsed R self source translated = detect R self source translated)"
proof -
  have "detect_stammering R source translated = Inr True"
    if "n \<in> set (ngram_sizes default_detector (length (tokenize R translated)))"
      and "frequency_rule (get_ngrams (tokenize R translated) n) (get_ngrams (tokenize R source) n)"
    using that ngram_flagged_frequency [OF that(2)]
    unfolding detect_stammering_eq detect_true_iff by blast
  moreover have "frequency_loop self n m items = frequency_loop self 1 m items"
    for self m and items :: "('a \<times> nat) list"
    using frequency_loop_collapsed_eq [of self m items n]
      frequency_loop_collapsed_eq [of self m items 1] by simp
  ultimately show ?thesis
    by (simp add: Let_def max_source_repetition_of_Counter frequency_loop_rule
        has_ngram_repetition_Inr ngram_flagged_frequency detect_collapsed_eq)
qed

theorem frequency_check_rule_witness:
  "1 \<in> set (ngram_sizes default_detector (length (tokenize basic_db (str ''a a a'')))) \<and>
   frequency_rule (get_ngrams (tokenize basic_db (str ''a a a'')) 1)
     (get_ngrams (tokenize basic_db (str ''x'')) 1) \<and>
   detect_stammering basic_db (str ''x'') (str ''a a a'') = Inr True"
proof -
  have h: "1 \<in> set (ngram_sizes default_detector (length (tokenize basic_db (str ''a a a'')))) \<and>
   frequency_rule (get_ngrams (tokenize basic_db (str ''a a a'')) 1)
     (get_ngrams (tokenize basic_db (str ''x'')) 1)"
    by code_simp
  with frequency_check_rule [where R = basic_db and source = "str ''x''"
      and translated = "str ''a a a''" and n = 1]
  show ?thesis by (simp add: Let_def)
qed

text \<open>
  C3, as stated: if some window of three consecutive translated n-grams holds one
  value \<open>g\<close> three times then, when the longest run of the source is at least
  \<open>3\<close>, the check flags exactly when the longest run of \<open>g\<close> in the translation
  exceeds twice the longest run of the source. The code does not stop at the first
  such value: in \<open>two_runs_translated\<close> the value \<^verbatim>\<open>a\<close> fills a window and its run
  of \<open>3\<close> does not exceed \<open>2 * 3\<close>, yet the check flags, because of the run of
  \<^verbatim>\<open>b\<close> that a later window meets.
\<close>

theorem consecutive_check_counterexample:
  "uniform_window (get_ngrams (tokenize basic_db two_runs_translated) 1) [str ''a''] \<and>
   longest_run (get_ngrams (tokenize basic_db two_runs_source) 1) = 3 \<and>
   consecutive_loop default_detector
     (get_ngrams (tokenize basic_db two_runs_translated) 1)
     (get_ngrams (tokenize basic_db two_runs_source) 1)
     [0 ..< length (get_ngrams (tokenize basic_db two_runs_translated) 1) + 1 - 3] = Inr True \<and>
   \<not> longest_run_of [str ''a''] (get_ngrams (tokenize basic_db two_runs_translated) 1) > 3 * 2 \<and>
   (consecutive_loop default_detector
      (get_ngrams (tokenize basic_db two_runs_translated) 1)
      (get_ngrams (tokenize basic_db two_runs_source) 1)
      [0 ..< length (get_ngrams (tokenize basic_db two_runs_translated) 1) + 1 - 3] = Inr True) \<noteq>
   (longest_run_of [str ''a''] (get_ngrams (tokenize basic_db two_runs_translated) 1) >
      longest_run (get_ngrams (tokenize basic_db two_runs_source) 1) * 2) \<and>
   \<not> frequency_rule (get_ngrams (tokenize basic_db two_runs_translated) 1)
       (get_ngrams (tokenize basic_db two_runs_source) 1) \<and>
   detect_stammering basic_db two_runs_source two_runs_translated = Inr True"
  by code_simp

text \<open>
  C3, amended: if some window of three consecutive translated n-grams holds a single
  value then, when the longest run of the source is at least \<open>3\<close>, the check flags
  exactly when the longest run of some such value \<open>g\<close> in the translation exceeds
  twice the longest run of the source, and when the longest run of the source is
  below \<open>3\<close> the check flags. The two run lengths of the code are the longest run
  of the source n-grams (\<open>0\<close> when there is none) and the longest run of \<open>g\<close>
  in the translated n-grams. Without such a window the check does not flag, and a
  flag at a size the loop examines makes \<open>detect\<close> return true.
\<close>

theorem consecutive_check_rule:
  "(let tt = tokenize R translated; st = tokenize R source;
        tn = get_ngrams tt n; sn = get_ngrams st n;
        check = consecutive_loop default_detector tn sn [0 ..< length tn + 1 - 3]
    in count_max_consecutive_any sn = Inr (longest_run sn) \<and>
       (\<forall>g. count_max_consecutive tn g = longest_run_of g tn) \<and>
       ((\<exists>g. uniform_window tn g) \<longrightarrow>
          (longest_run sn \<ge> 3 \<longrightarrow>
             (check = Inr True \<longleftrightarrow>
                (\<exists>g. uniform_window tn g \<and> longest_run_of g tn > longest_run sn * 2))) \<and>
          (longest_run sn < 3 \<longrightarrow> check = Inr True)) \<and>
       ((\<nexists>g. uniform_window tn g) \<longrightarrow> check = Inr False) \<and>
       (check = Inr True \<and> n \<in> set (ngram_sizes default_detector (length tt)) \<longrightarrow>
          has_ngram_repetition default_detector tt st n = Inr True \<and>
          detect_stammering R source translated = Inr True))"
proof -
  let ?tt = "tokenize R translated" and ?st = "tokenize R source"
  let ?tn = "get_ngrams ?tt n" and ?sn = "get_ngrams ?st n"
  let ?check = "consecutive_loop default_detector ?tn ?sn [0 ..< length ?tn + 1 - 3]"
  have a: "count_max_consecutive_any ?sn = Inr (longest_run ?sn)"
    by (simp add: count_max_consecutive_any_Inr max_consecutive_any_longest_run)
  have b: "\<forall>g. count_max_consecutive ?tn g = longest_run_of g ?tn"
    by (simp add: count_max_consecutive_longest_run_of)
  have c: "(\<exists>g. uniform_window ?tn g) \<longrightarrow>
          (longest_run ?sn \<ge> 3 \<longrightarrow>
             (?check = Inr True \<longleftrightarrow>
                (\<exists>g. uniform_window ?tn g \<and> longest_run_of g ?tn > longest_run ?sn * 2))) \<and>
          (longest_run ?sn < 3 \<longrightarrow> ?check = Inr True)"
    unfolding consecutive_check_eq by auto
  have d: "(\<nexists>g. uniform_window ?tn g) \<longrightarrow> ?check = Inr False"
    unfolding consecutive_check_eq by auto
  have e: "?check = Inr True \<and> n \<in> set (ngram_sizes default_detector (length ?tt)) \<longrightarrow>
          has_ngram_repetition default_detector ?tt ?st n = Inr True \<and>
          detect_stammering R source translated = Inr True"
  proof (intro impI, elim conjE)
    assume chk: "?check = Inr True" and n: "n \<in> set (ngram_sizes default_detector (length ?tt))"
    from chk have f: "ngram_flagged default_detector ?tt ?st n" by (rule ngram_flagged_consecutive)
    then have "has_ngram_repetition default_detector ?tt ?st n = Inr True"
      by (simp add: has_ngram_repetition_Inr)
    moreover have "detect_stammering R source translated = Inr True"
      unfolding detect_stammering_eq detect_true_iff using f n by blast
    ultimately show "has_ngram_repetition default_detector ?tt ?st n = Inr True \<and>
          detect_stammering R source translated = Inr True" by simp
  qed
  from a b c d e show ?thesis unfolding Let_def by (intro conjI)
qed

theorem consecutive_check_rule_witness:
  "uniform_window (get_ngrams (tokenize basic_db (str ''a a a'')) 1) [str ''a''] \<and>
   longest_run (get_ngrams (tokenize basic_db (str ''x y'')) 1) < 3 \<and>
   1 \<in> set (ngram_sizes default_detector (length (tokenize basic_db (str ''a a a'')))) \<and>
   consecutive_loop default_detector (get_ngrams (tokenize basic_db (str ''a a a'')) 1)
     (get_ngrams (tokenize basic_db (str ''x y'')) 1)
     [0 ..< length (get_ngrams (tokenize basic_db (str ''a a a'')) 1) + 1 - 3] = Inr True \<and>
   detect_stammering basic_db (str ''x y'') (str ''a a a'') = Inr True"
proof -
  have h: "uniform_window (get_ngrams (tokenize basic_db (str ''a a a'')) 1) [str ''a''] \<and>
   longest_run (get_ngrams (tokenize basic_db (str ''x y'')) 1) < 3 \<and>
   1 \<in> set (ngram_sizes default_detector (length (tokenize basic_db (str ''a a a''))))"
    by code_simp
  then have "\<exists>g. uniform_window (get_ngrams (tokenize basic_db (str ''a a a'')) 1) g" by blast
  with h consecutive_check_rule [where R = basic_db and source = "str ''x y''"
      and translated = "str ''a a a''" and n = 1]
  show ?thesis by (simp add: Let_def)
qed

text \<open>
  C4. The elongation check flags exactly when the score of the translation is above
  \<open>40\<close> and above three times the score of the source. Each score is computed on
  the text's own lowercase form and is the sum of the lengths of the maximal runs of
  three or more equal characters whose character is alphanumeric: a text without an
  alphanumeric character scores \<open>0\<close>, and so does the empty text. The pattern of
  the code skips runs of newlines, so the statement needs what every character
  database says, that a newline is not alphanumeric.
\<close>

theorem elongation_rule:
  assumes "\<not> isalnum R newline"
  shows "has_excessive_elongation R self translated source =
           Inr (elongation_score R translated > 40 \<and>
                elongation_score R translated > elongation_score R source * 3) \<and>
         (str_lower R [] = [] \<longrightarrow> elongation_score R [] = 0) \<and>
         ((\<forall>c\<in>set (str_lower R sentence). \<not> isalnum R c) \<longrightarrow>
            elongation_score R sentence = 0)"
proof -
  have sc: "elongation_score R x = elongation_sum R (finditer (str_lower R x))" for x
    using assms by (simp add: elongation_score_def run_score_weight elongation_sum_runs)
  have "run_score R s = 0" if "\<forall>c\<in>set s. \<not> isalnum R c" for s
  proof -
    have "\<not> isalnum R (hd r)" if "r \<in> set (runs s)" for r
    proof -
      from that have "r \<noteq> []" by (rule runs_nonempty)
      moreover have "set r \<subseteq> set s" using that
        by (induction s rule: runs.induct) (auto dest: set_takeWhileD set_dropWhileD)
      ultimately show ?thesis using \<open>\<forall>c\<in>set s. \<not> isalnum R c\<close> by (cases r) auto
    qed
    then have "filter (\<lambda>r. length r \<ge> 3 \<and> isalnum R (hd r)) (runs s) = []"
      by (auto simp: filter_empty_conv)
    then show ?thesis by (simp add: run_score_def)
  qed
  then have "(\<forall>c\<in>set (str_lower R sentence). \<not> isalnum R c) \<longrightarrow>
      elongation_score R sentence = 0"
    by (simp add: elongation_score_def)
  moreover have "str_lower R [] = [] \<longrightarrow> elongation_score R [] = 0"
    by (simp add: elongation_score_def run_score_def)
  ultimately show ?thesis
    by (simp add: has_excessive_elongation_Inr sc)
qed

theorem elongation_rule_witness:
  "\<not> isalnum basic_db newline \<and> str_lower basic_db [] = [] \<and>
   elongation_score basic_db [] = 0 \<and>
   list_all (\<lambda>c. \<not> isalnum basic_db c) (str_lower basic_db (str ''!!! ???'')) \<and>
   elongation_score basic_db (str ''!!! ???'') = 0 \<and>
   has_excessive_elongation basic_db default_detector (replicate 41 111) (str ''sooo'') =
     Inr (elongation_score basic_db (replicate 41 111) > 40 \<and>
          elongation_score basic_db (replicate 41 111) > elongation_score basic_db (str ''sooo'') * 3)"
proof -
  have h: "\<not> isalnum basic_db newline" by code_simp
  have e: "str_lower basic_db [] = []" by code_simp
  have n: "\<forall>c\<in>set (str_lower basic_db (str ''!!! ???'')). \<not> isalnum basic_db c" by code_simp
  from elongation_rule [OF h, where self = default_detector and translated = "replicate 41 111"
      and source = "str ''sooo''" and sentence = "str ''!!! ???''"]
    h e n show ?thesis by (simp add: list_all_iff)
qed

text \<open>
  C5. With \<open>t\<close> the number of translated tokens, the sizes the phrase-repetition
  loop ranges over are exactly the \<open>n\<close> with \<open>1 \<le> n \<le> min(5, t - 1)\<close>, and the
  stage returns whether the per-size check fires at one of them. Size \<open>n = t\<close> is
  not among them when \<open>t \<le> 5\<close>; for a translation of one token there is no size
  at all, the stage returns false and \<open>detect\<close> returns what the elongation check
  returns.
\<close>

theorem ngram_sizes_examined:
  "(let tt = tokenize R translated; st = tokenize R source; t = length tt
    in set (ngram_sizes default_detector t) = {n. 1 \<le> n \<and> int n \<le> min 5 (int t - 1)} \<and>
       has_phrase_repetition R default_detector translated source =
         Inr (\<exists>n. 1 \<le> n \<and> int n \<le> min 5 (int t - 1) \<and>
                  has_ngram_repetition default_detector tt st n = Inr True) \<and>
       t \<notin> set (ngram_sizes default_detector t) \<and>
       (t = 1 \<longrightarrow> ngram_sizes default_detector t = [] \<and>
          has_phrase_repetition R default_detector translated source = Inr False \<and>
          detect_stammering R source translated =
            has_excessive_elongation R default_detector translated source))"
proof -
  have sizes: "set (ngram_sizes default_detector t) = {n. 1 \<le> n \<and> int n \<le> min 5 (int t - 1)}" for t
    by (auto simp: ngram_sizes_def default_detector_def)
  have "has_phrase_repetition R default_detector translated source =
         Inr (\<exists>n. 1 \<le> n \<and> int n \<le> min 5 (int (length (tokenize R translated)) - 1) \<and>
                  has_ngram_repetition default_detector (tokenize R translated) (tokenize R source) n = Inr True)"
    unfolding has_phrase_repetition_Inr sizes by (auto simp: has_ngram_repetition_Inr)
  moreover have "has_phrase_repetition R default_detector translated source = Inr False \<and>
      detect_stammering R source translated = has_excessive_elongation R default_detector translated source"
    if "length (tokenize R translated) = 1"
    using that
    by (auto simp: has_phrase_repetition_Inr detect_stammering_eq detect_eq ngram_sizes_def
        has_excessive_elongation_Inr default_detector_def)
  ultimately show ?thesis
    unfolding Let_def sizes by (auto simp: ngram_sizes_def default_detector_def)
qed

theorem ngram_sizes_examined_witness:
  "length (tokenize basic_db (str ''bye'')) = 1 \<and>
   ngram_sizes default_detector 1 = [] \<and>
   has_phrase_repetition basic_db default_detector (str ''bye'') (str ''ciao'') = Inr False \<and>
   detect_stammering basic_db (str ''ciao'') (str ''bye'') =
     has_excessive_elongation basic_db default_detector (str ''bye'') (str ''ciao'')"
proof -
  have h: "length (tokenize basic_db (str ''bye'')) = 1" by code_simp
  with ngram_sizes_examined [where R = basic_db and translated = "str ''bye''"
      and source = "str ''ciao''"]
  show ?thesis by (simp add: Let_def)
qed

text \<open>
  C6. The detector is total: for every pair of texts, empty ones and texts of a single
  token or of fewer tokens than an n-gram size included, \<open>detect\<close> returns a boolean
  and raises nothing. The n-grams of a token list shorter than \<open>n\<close> are the empty
  sequence, and the longest run of an empty sequence of n-grams is \<open>0\<close>, again
  without an error.
\<close>

theorem detect_total:
  "(\<exists>b. detect_stammering R source translated = Inr b) \<and>
   (\<exists>b. detect R self source translated = Inr b) \<and>
   (length tokens < n \<longrightarrow> get_ngrams tokens n = []) \<and>
   count_max_consecutive_any ([] :: 'a list) = Inr 0 \<and>
   (\<exists>m. count_max_consecutive_any ngrams = Inr m)"
  by (auto simp: detect_stammering_eq detect_eq has_excessive_elongation_Inr
      has_phrase_repetition_Inr get_ngrams_short count_max_consecutive_any_Inr
      max_consecutive_any_def)

theorem detect_total_witness:
  "length [str ''bye''] < 2 \<and> get_ngrams [str ''bye''] 2 = [] \<and>
   (\<exists>b. detect_stammering basic_db [] (str ''bye'') = Inr b)"
  using detect_total [of basic_db "[]" "str ''bye''" default_detector "[str ''bye'']" 2 "[]"]
  by auto

text \<open>
  C7, as stated: uppercasing either input does not change the result. Lowercasing
  does not undo uppercasing on every text: the sharp s stays as it is in lowercase
  and becomes \<^verbatim>\<open>SS\<close> in uppercase. The three tokens of \<open>sharp_s_text\<close> are
  not all equal; uppercased, they are \<^verbatim>\<open>ss\<close> three times. As a translation the
  text is not flagged and its uppercase form is; as a source it lets the translation
  \<^verbatim>\<open>a a a\<close> be flagged and its uppercase form does not.
\<close>

theorem case_insensitive_counterexample:
  "detect_stammering basic_db (str ''x'') sharp_s_text = Inr False \<and>
   detect_stammering basic_db (str ''x'') (str_upper basic_db sharp_s_text) = Inr True \<and>
   detect_stammering basic_db (str ''x'') (str_upper basic_db sharp_s_text) \<noteq>
     detect_stammering basic_db (str ''x'') sharp_s_text \<and>
   detect_stammering basic_db sharp_s_text (str ''a a a'') = Inr True \<and>
   detect_stammering basic_db (str_upper basic_db sharp_s_text) (str ''a a a'') = Inr False \<and>
   detect_stammering basic_db (str_upper basic_db sharp_s_text) (str ''a a a'') \<noteq>
     detect_stammering basic_db sharp_s_text (str ''a a a'')"
  by code_simp

text \<open>
  C7, amended: \<open>detect\<close> is case-insensitive on every text that lowercasing
  restores after uppercasing. When the uppercased source has the lowercase form and
  the tokens of the source, uppercasing the source does not change the result, and
  when the uppercased translation has the lowercase form and the tokens of the
  translation, uppercasing the translation does not change it. Every text made of
  ASCII characters is such a text, in every character database that treats ASCII text
  as CPython's does; so is every text over U+0000 to U+00FF without U+00B5 and
  U+00DF, in the Latin-1 database.
\<close>

theorem case_insensitive_restored:
  "(survives_uppercasing R s \<longrightarrow>
      detect_stammering R (str_upper R s) t = detect_stammering R s t) \<and>
   (survives_uppercasing R t \<longrightarrow>
      detect_stammering R s (str_upper R t) = detect_stammering R s t) \<and>
   (agrees_on_ascii R \<and> is_ascii s \<longrightarrow> survives_uppercasing R s) \<and>
   (restored_latin1 s \<longrightarrow> survives_uppercasing latin1_db s)"
proof -
  have "detect_stammering R (str_upper R x) y = detect_stammering R x y"
    and "detect_stammering R y (str_upper R x) = detect_stammering R y x"
    if "survives_uppercasing R x" for x y
    using that
    by (auto simp: detect_stammering_eq survives_uppercasing_def intro!: detect_cong)
  then show ?thesis
    by (simp add: survives_ascii survives_latin1)
qed

theorem case_insensitive_restored_witness:
  "survives_uppercasing latin1_db cosi_source \<and>
   detect_stammering latin1_db (str_upper latin1_db cosi_source) tired_translated =
     detect_stammering latin1_db cosi_source tired_translated \<and>
   survives_uppercasing latin1_db cosi_thrice \<and>
   detect_stammering latin1_db questo_source cosi_thrice = Inr True \<and>
   detect_stammering latin1_db questo_source (str_upper latin1_db cosi_thrice) = Inr True \<and>
   agrees_on_ascii basic_db \<and> is_ascii (str ''ciao ciao'') \<and>
   survives_uppercasing basic_db (str ''ciao ciao'') \<and>
   restored_latin1 questo_source \<and> survives_uppercasing latin1_db questo_source"
proof -
  have a: "survives_uppercasing latin1_db cosi_source"
    and b: "survives_uppercasing latin1_db cosi_thrice"
    and c: "detect_stammering latin1_db questo_source cosi_thrice = Inr True"
    and d: "is_ascii (str ''ciao ciao'')"
    by code_simp+
  from case_insensitive_restored [where R = latin1_db and s = cosi_source and t = tired_translated] a
  have 1: "detect_stammering latin1_db (str_upper latin1_db cosi_source) tired_translated =
     detect_stammering latin1_db cosi_source tired_translated" by simp
  from case_insensitive_restored [where R = latin1_db and s = questo_source and t = cosi_thrice] b c
  have 2: "detect_stammering latin1_db questo_source (str_upper latin1_db cosi_thrice) = Inr True"
    by simp
  from case_insensitive_restored [where R = basic_db and s = "str ''ciao ciao''"] agrees_basic_db d
  have 3: "survives_uppercasing basic_db (str ''ciao ciao'')" by simp
  have e: "restored_latin1 questo_source" by code_simp
  from case_insensitive_restored [where R = latin1_db and s = questo_source] e
  have 4: "survives_uppercasing latin1_db questo_source" by simp
  from a b c d e 1 2 3 4 agrees_basic_db show ?thesis by simp
qed

text \<open>
  C8. For every source \<open>s\<close>, every translation \<open>t\<close> that is flagged, every word
  \<open>w\<close> and every \<open>k \<ge> 1\<close>, the translation with \<open>k\<close> more copies of \<open>w\<close>
  appended, each after a space, is flagged too. Two facts about the runtime are
  used: the space is whitespace, and \<^verbatim>\<open>str.lower\<close> works on the two sides of a space
  independently.
\<close>

theorem detect_append_monotone:
  assumes "isspace R 32" and "lower_splits_at_space R"
    and "detect_stammering R s t = Inr True" and "k \<ge> 1"
  shows "detect_stammering R s (append_copies t w k) = Inr True"
proof -
  from \<open>k \<ge> 1\<close> obtain j where k: "k = Suc j" by (cases k) auto
  have "append_copies t w k = t @ 32 # (w @ concat (replicate j (32 # w)))"
    by (simp add: append_copies_def k)
  with assms(1-3) show ?thesis
    by (simp add: detect_stammering_eq detect_append_suffix)
qed

theorem detect_append_monotone_witness:
  "isspace basic_db 32 \<and> lower_splits_at_space basic_db \<and>
   detect_stammering basic_db (str ''x'') (str ''a a a'') = Inr True \<and> (1::nat) \<ge> 1 \<and>
   detect_stammering basic_db (str ''x'') (append_copies (str ''a a a'') (str ''a'') 1) = Inr True"
proof -
  have s: "isspace basic_db 32" by code_simp
  have d: "detect_stammering basic_db (str ''x'') (str ''a a a'') = Inr True" by code_simp
  from detect_append_monotone [OF s lower_splits_basic_db d, where k = 1 and w = "str ''a''"]
    s lower_splits_basic_db d show ?thesis by simp
qed

text \<open>
  C9. On the source \<^verbatim>\<open>ciao ciao ciao ciao\<close> and the translation
  \<^verbatim>\<open>bye bye bye bye\<close> the detector returns false: the translated unigram occurs
  \<open>4\<close> times, which is not above \<open>4 * 1.5 = 6\<close>, and its run of \<open>4\<close> is not
  above \<open>4 * 2 = 8\<close>. This holds for every character database that treats ASCII
  text as CPython's does.
\<close>

theorem scenario_ciao_bye:
  assumes "agrees_on_ascii R"
  shows "detect_stammering R ciao_source bye_translated = Inr False \<and>
   count_list (get_ngrams (tokenize R bye_translated) 1) [str ''bye''] = 4 \<and>
   max_source_freq (get_ngrams (tokenize R ciao_source) 1) = 4 \<and>
   \<not> frequency_rule (get_ngrams (tokenize R bye_translated) 1)
       (get_ngrams (tokenize R ciao_source) 1) \<and>
   count_max_consecutive (get_ngrams (tokenize R bye_translated) 1) [str ''bye''] = 4 \<and>
   count_max_consecutive_any (get_ngrams (tokenize R ciao_source) 1) = Inr 4 \<and>
   consecutive_loop default_detector (get_ngrams (tokenize R bye_translated) 1)
     (get_ngrams (tokenize R ciao_source) 1)
     [0 ..< length (get_ngrams (tokenize R bye_translated) 1) + 1 - 3] = Inr False"
  using assms ciao_bye_ascii ciao_bye_basic
  by (simp add: detect_stammering_eq detect_agrees tokenize_agrees
      count_max_consecutive_longest_run_of count_max_consecutive_any_Inr
      max_consecutive_any_longest_run)

theorem scenario_ciao_bye_witness:
  "agrees_on_ascii basic_db \<and> detect_stammering basic_db ciao_source bye_translated = Inr False"
  using scenario_ciao_bye [OF agrees_basic_db] agrees_basic_db by simp

text \<open>
  C10. A text is never flagged against itself: \<open>detect(s, s)\<close> is false for every
  \<open>s\<close>. The elongation check returns false, the per-size check returns false at
  every size, no n-gram has a longer run than the longest run of the sequence, and
  no n-gram occurs more often than the most frequent one.
\<close>

theorem identity_not_flagged:
  "detect_stammering R s s = Inr False \<and>
   has_excessive_elongation R default_detector s s = Inr False \<and>
   (\<forall>n. has_ngram_repetition default_detector (tokenize R s) (tokenize R s) n = Inr False) \<and>
   (\<forall>n g. count_max_consecutive (get_ngrams (tokenize R s) n) g \<le>
           longest_run (get_ngrams (tokenize R s) n)) \<and>
   (\<forall>n g. g \<in> set (get_ngrams (tokenize R s) n) \<longrightarrow>
      count_list (get_ngrams (tokenize R s) n) g \<le> max_source_freq (get_ngrams (tokenize R s) n))"
proof -
  have "detect_stammering R s s \<noteq> Inr True"
    by (simp add: detect_stammering_eq detect_true_iff ngram_flagged_same)
  moreover have "\<exists>b. detect_stammering R s s = Inr b"
    by (auto simp: detect_stammering_eq detect_eq has_excessive_elongation_Inr has_phrase_repetition_Inr)
  ultimately have "detect_stammering R s s = Inr False" by auto
  moreover have "\<forall>n g. count_max_consecutive (get_ngrams (tokenize R s) n) g \<le>
           longest_run (get_ngrams (tokenize R s) n)"
    by (simp add: max_consecutive_any_longest_run [symmetric] count_max_consecutive_le_any)
  ultimately show ?thesis
    by (simp add: has_excessive_elongation_Inr has_ngram_repetition_Inr ngram_flagged_same
        count_le_max_source_freq)
qed

theorem identity_not_flagged_witness:
  "[str ''bye''] \<in> set (get_ngrams (tokenize basic_db (str ''bye bye bye bye'')) 1) \<and>
   detect_stammering basic_db (str ''bye bye bye bye'') (str ''bye bye bye bye'') = Inr False"
proof -
  have "[str ''bye''] \<in> set (get_ngrams (tokenize basic_db (str ''bye bye bye bye'')) 1)"
    by code_simp
  with identity_not_flagged [where R = basic_db and s = "str ''bye bye bye bye''"] show ?thesis by simp
qed

end
